theory Spec2Isabelle
  imports Complex_Main "HOL-Library.AList" "HOL-Library.Sublist"
begin

section \<open>Data model of \<open>logstash.go\<close>\<close>

text \<open>
  \<open>logrus.Level\<close>: the seven severities of the logging framework, in the order of
  their numeric values (\<open>PanicLevel = 0\<close> up to \<open>TraceLevel = 6\<close>).
\<close>

datatype Level =
  PanicLevel | FatalLevel | ErrorLevel | WarnLevel | InfoLevel | DebugLevel | TraceLevel

text \<open>
  \<open>logrus.Fields\<close> is \<open>map[string]interface{}\<close>. A Go map is kept as an association
  list: the list order stands for the order in which \<open>range\<close> visits the keys (the
  runtime is free to choose it), lookup is \<open>map_of\<close>, \<open>m[k] = v\<close> is
  \<open>AList.update k v m\<close> and \<open>delete(m, k)\<close> is \<open>AList.delete k m\<close>. The values
  (\<open>interface{}\<close>) are a type parameter. A nil map is \<open>None\<close>: reading and ranging
  over it behave like the empty map, assigning into it panics.
\<close>

type_synonym 'v Fields = "(string \<times> 'v) list"

record 'v Entry =
  Data :: "'v Fields option"
  Time :: int
  Level :: Level
  Message :: string

text \<open>
  Entries travel as pointers (\<open>*logrus.Entry\<close>), none of them nil; the store maps a
  pointer to the entry behind it.
\<close>

type_synonym addr = nat

type_synonym bytes = string

text \<open>\<open>time.Duration\<close> counts nanoseconds.\<close>

definition millisecond :: int where
  "millisecond = 1000000"

definition second :: int where
  "second = 1000000000"

datatype error = DeadlineExceeded | FormatError string

text \<open>
  The buffered channel \<open>fireChannel\<close> of the language runtime: \<open>buf\<close> holds the queued
  elements, oldest first, \<open>cap\<close> is the capacity given to \<open>make\<close>, \<open>sendq\<close> the
  elements of the senders parked in a blocking send, in arrival order, and
  \<open>receiver\<close> tells whether the receiving goroutine is parked in a receive, or has been
  handed an element by a sender while it was parked.
\<close>

datatype receiver = NotWaiting | Waiting | Delivered addr

record chan =
  buf :: "addr list"
  cap :: nat
  sendq :: "addr list"
  receiver :: receiver

text \<open>
  The struct \<open>Hook\<close>. \<open>conn\<close> is nil (\<open>None\<close>) or a connection, named by a number.
  \<open>sendingLocker\<close> is \<open>True\<close> while the mutex is held. The four retry and
  reconnect settings are declared by the struct and read nowhere.
\<close>

record 'v Hook =
  sendingLocker :: bool
  conn :: "nat option"
  protocol :: string
  address :: string
  appName :: string
  alwaysSentFields :: "'v Fields"
  hookOnlyPrefix :: string
  TimeFormat :: string
  fireChannel :: chan
  WaitUntilBufferFrees :: bool
  Timeout :: int
  MaxSendRetries :: int
  ReconnectBaseDelay :: int
  ReconnectDelayMultiplier :: real
  MaxReconnectRetries :: int

text \<open>
  What the code does to its environment, in order: calls on the connection, the dialer,
  the clock, the mutex and the logger.
\<close>

datatype event =
    SetWriteDeadline nat int
  | Write nat bytes bool
  | Dial string string bool
  | Sleep int
  | Errorf string
  | Lock
  | Unlock
  | Len nat

text \<open>
  The environment of the sending goroutine. \<open>dial_ok n\<close> tells whether the \<open>n\<close>-th call
  of \<open>net.Dial\<close> returns a connection, \<open>write_ok n\<close> whether the \<open>n\<close>-th call of
  \<open>conn.Write\<close> returns a nil error (the whole slice was written); \<open>dials\<close> and
  \<open>writes\<close> count the calls made so far, \<open>now\<close> is the clock and \<open>trace\<close> the events so
  far. A sleep advances the clock by its duration.
\<close>

record world =
  dial_ok :: "nat \<Rightarrow> bool"
  write_ok :: "nat \<Rightarrow> bool"
  dials :: nat
  writes :: nat
  now :: int
  trace :: "event list"

definition emit :: "event \<Rightarrow> world \<Rightarrow> world" where
  "emit ev w = w\<lparr>trace := trace w @ [ev]\<rparr>"

definition sleep :: "int \<Rightarrow> world \<Rightarrow> world" where
  "sleep d w = (emit (Sleep d) w)\<lparr>now := now w + d\<rparr>"

section \<open>Levels\<close>

definition Levels :: "'v Hook \<Rightarrow> Level list" where
  "Levels h =
     [PanicLevel, FatalLevel, ErrorLevel, WarnLevel, InfoLevel, DebugLevel, TraceLevel]"

section \<open>Field filtering and merging\<close>

text \<open>\<open>strings.HasPrefix(s, prefix)\<close>.\<close>

definition HasPrefix :: "string \<Rightarrow> string \<Rightarrow> bool" where
  "HasPrefix s p = (length p \<le> length s \<and> take (length p) s = p)"

text \<open>
  \<open>filterHookOnly\<close>: the loop visits every key of \<open>entry.Data\<close> once and deletes the
  keys that carry the prefix.
\<close>

definition filterHookOnly :: "'v Hook \<Rightarrow> 'v Entry \<Rightarrow> 'v Entry" where
  "filterHookOnly h entry =
     (if hookOnlyPrefix h = [] then entry
      else (case Data entry of
              None \<Rightarrow> entry
            | Some m \<Rightarrow>
                entry\<lparr>Data := Some (fold (\<lambda>key d. if HasPrefix key (hookOnlyPrefix h)
                                                  then AList.delete key d else d)
                                         (map fst m) m)\<rparr>))"

text \<open>
  The first loop of \<open>sendMessage\<close>, over \<open>alwaysSentFields\<close>. The result is \<open>None\<close> when
  the loop panics: it assigns into \<open>entry.Data\<close>, which panics when that map is nil.
\<close>

fun mergeFields :: "'v Fields \<Rightarrow> 'v Fields option \<Rightarrow> 'v Fields option option" where
  "mergeFields [] d = Some d"
| "mergeFields ((k, v) # rest) None = None"
| "mergeFields ((k, v) # rest) (Some m) =
     (if map_of m k = None then mergeFields rest (Some (AList.update k v m))
      else mergeFields rest (Some m))"

section \<open>The formatter\<close>

text \<open>
  Modelled from the spec: the struct \<open>LogstashFormatter\<close> and its method
  \<open>FormatWithPrefix\<close> are declared in a file of the repository that is not among the
  sources. The record has the two fields \<open>sendMessage\<close> sets. The method is a parameter
  of the model, a function of the formatter, the entry and the prefix: by section 4.1 of
  the specification it produces the output bytes or fails with a serialization error,
  and stripping fields from the record is left to its caller, so it returns no entry.
\<close>

record LogstashFormatter =
  Type :: string
  TimestampFormat :: string

type_synonym 'v format = "LogstashFormatter \<Rightarrow> 'v Entry \<Rightarrow> string \<Rightarrow> error + bytes"

section \<open>Connecting and writing\<close>

text \<open>
  A call either returns its value or panics; a call that never returns is \<open>None\<close> of
  the option around it.
\<close>

datatype 'a outcome = Returned 'a | Panicked

text \<open>
  The step both retry loops apply to their delay,
  \<open>delay = time.Duration(float64(delay) * 6 / 5)\<close>, followed by the cap at one second.
  The source computes in \<open>float64\<close>: \<open>fl\<close> stands for the rounding of a real number to
  \<open>float64\<close>, applied to the conversion and to each operation, and the conversion back
  to an integer cuts off the fraction.
\<close>

definition trunc :: "real \<Rightarrow> int" where
  "trunc x = (if 0 \<le> x then \<lfloor>x\<rfloor> else \<lceil>x\<rceil>)"

definition float_step :: "(real \<Rightarrow> real) \<Rightarrow> int \<Rightarrow> int" where
  "float_step fl delay =
     (let d = trunc (fl (fl (fl (of_int delay) * 6) / 5))
      in if d > second then second else d)"

text \<open>
  What is used of the rounding: a whole number below \<open>2^53\<close> is a \<open>float64\<close> and is
  left as it is, and a number between 1 and \<open>2^53\<close> is moved by at most its
  \<open>2^53\<close>-th part.
\<close>

definition float64_rounding :: "(real \<Rightarrow> real) \<Rightarrow> bool" where
  "float64_rounding fl \<longleftrightarrow>
     (\<forall>n::int. \<bar>n\<bar> < 2 ^ 53 \<longrightarrow> fl (of_int n) = of_int n) \<and>
     (\<forall>x. 1 \<le> \<bar>x\<bar> \<and> \<bar>x\<bar> < 2 ^ 53 \<longrightarrow> \<bar>fl x - x\<bar> \<le> \<bar>x\<bar> / 2 ^ 53)"

text \<open>
  The same step on integers. It is the step of the source for every delay from zero to
  one second, whatever the rounding (lemma \<open>float_step_next_delay\<close>), and it is what
  the loops below use.
\<close>

definition next_delay :: "int \<Rightarrow> int" where
  "next_delay delay = (let d = delay * 6 div 5 in if d > second then second else d)"

text \<open>The loop of \<open>reconnect\<close>; the connection a dial returns is named by the dial's number.\<close>

partial_function (option) reconnect_loop ::
  "'v Hook \<Rightarrow> int \<Rightarrow> world \<Rightarrow> ('v Hook \<times> world) option" where
  "reconnect_loop h delay w =
     (let ok = dial_ok w (dials w);
          w1 = emit (Dial (protocol h) (address h) ok) (w\<lparr>dials := dials w + 1\<rparr>)
      in if ok then Some (h\<lparr>conn := Some (dials w)\<rparr>, w1)
         else reconnect_loop h (next_delay delay)
                (sleep delay (emit (Errorf ''unable to connect'') w1)))"

declare reconnect_loop.simps [code]

definition reconnect :: "'v Hook \<Rightarrow> world \<Rightarrow> ('v Hook \<times> world) option" where
  "reconnect h w = reconnect_loop h (10 * millisecond) w"

text \<open>
  The loop of \<open>performSend\<close>. A method call on the nil connection panics.
\<close>

partial_function (option) performSend_loop ::
  "'v Hook \<Rightarrow> bytes \<Rightarrow> int \<Rightarrow> world \<Rightarrow> (unit outcome \<times> 'v Hook \<times> world) option" where
  "performSend_loop h data delay w =
     (case conn h of
        None \<Rightarrow> Some (Panicked, h, w)
      | Some c \<Rightarrow>
          (let ok = write_ok w (writes w);
               w1 = emit (Write c data ok) (w\<lparr>writes := writes w + 1\<rparr>)
           in if ok then Some (Returned (), h, w1)
              else Option.bind
                     (reconnect h (sleep delay (emit (Errorf ''unable to write'') w1)))
                     (\<lambda>(h', w'). performSend_loop h' data (next_delay delay) w')))"

declare performSend_loop.simps [code]

definition performSend ::
  "'v Hook \<Rightarrow> bytes \<Rightarrow> world \<Rightarrow> (unit outcome \<times> 'v Hook \<times> world) option" where
  "performSend h data w =
     (if Timeout h > 0 then
        (case conn h of
           None \<Rightarrow> Some (Panicked, h, w)
         | Some c \<Rightarrow>
             performSend_loop h data (10 * millisecond)
               (emit (SetWriteDeadline c (now w + Timeout h)) w))
      else performSend_loop h data (10 * millisecond) w)"

section \<open>Sending one entry\<close>

text \<open>
  \<open>sendMessage\<close> returns the error, the hook, the entry as the call leaves it and the
  environment. The deferred calls run on every way out, the unlock before the filter.
  The only other user of the mutex is \<open>Flush\<close>, which releases it at once, so the
  \<open>Lock\<close> here returns.
\<close>

definition sendMessage ::
  "'v format \<Rightarrow> 'v Hook \<Rightarrow> 'v Entry \<Rightarrow> world
     \<Rightarrow> (error option outcome \<times> 'v Hook \<times> 'v Entry \<times> world) option" where
  "sendMessage FormatWithPrefix h entry w =
     (case mergeFields (alwaysSentFields h) (Data entry) of
        None \<Rightarrow> Some (Panicked, h, filterHookOnly h entry, w)
      | Some d \<Rightarrow>
          (let entry1 = entry\<lparr>Data := d\<rparr>;
               formatter = \<lparr>Type = appName h, TimestampFormat = []\<rparr>;
               formatter = (if TimeFormat h \<noteq> []
                            then formatter\<lparr>TimestampFormat := TimeFormat h\<rparr>
                            else formatter)
           in case FormatWithPrefix formatter entry1 (hookOnlyPrefix h) of
                Inl err \<Rightarrow> Some (Returned (Some err), h, filterHookOnly h entry1, w)
              | Inr dataBytes \<Rightarrow>
                  (case performSend (h\<lparr>sendingLocker := True\<rparr>) dataBytes (emit Lock w) of
                     None \<Rightarrow> None
                   | Some (r, h', w') \<Rightarrow>
                       Some (case r of Returned u \<Rightarrow> Returned None | Panicked \<Rightarrow> Panicked,
                             h'\<lparr>sendingLocker := False\<rparr>,
                             filterHookOnly h' entry1,
                             emit Unlock w'))))"

section \<open>The channel\<close>

text \<open>
  The send of a \<open>select\<close> with a \<open>default\<close> case: it succeeds when the receiver is
  parked (the element is handed over) or the buffer has room, and is \<open>None\<close> otherwise.
\<close>

definition chan_send_nb :: "chan \<Rightarrow> addr \<Rightarrow> chan option" where
  "chan_send_nb ch x =
     (if receiver ch = Waiting then Some (ch\<lparr>receiver := Delivered x\<rparr>)
      else if length (buf ch) < cap ch then Some (ch\<lparr>buf := buf ch @ [x]\<rparr>)
      else None)"

text \<open>A blocking send that cannot proceed parks the sender behind the senders already parked.\<close>

definition chan_park :: "chan \<Rightarrow> addr \<Rightarrow> chan" where
  "chan_park ch x = ch\<lparr>sendq := sendq ch @ [x]\<rparr>"

text \<open>
  A receive: the channel after it, the element received (\<open>None\<close> when the receiver
  parks on an empty channel) and the element of the parked sender it wakes. With a
  sender parked, the receiver takes the head of the buffer and the sender's element
  goes to its tail; on a channel without buffer it takes the sender's element.
\<close>

definition chan_recv :: "chan \<Rightarrow> chan \<times> addr option \<times> addr option" where
  "chan_recv ch =
     (case receiver ch of
        Delivered x \<Rightarrow> (ch\<lparr>receiver := NotWaiting\<rparr>, Some x, None)
      | Waiting \<Rightarrow> (ch, None, None)
      | NotWaiting \<Rightarrow>
          (case buf ch of
             x # xs \<Rightarrow>
               (case sendq ch of
                  [] \<Rightarrow> (ch\<lparr>buf := xs\<rparr>, Some x, None)
                | y # ys \<Rightarrow> (ch\<lparr>buf := xs @ [y], sendq := ys\<rparr>, Some x, Some y))
           | [] \<Rightarrow>
               (case sendq ch of
                  [] \<Rightarrow> (ch\<lparr>receiver := Waiting\<rparr>, None, None)
                | y # ys \<Rightarrow> (ch\<lparr>sendq := ys\<rparr>, Some y, Some y))))"

section \<open>Fire\<close>

text \<open>
  A call of \<open>Fire\<close> returns its error, or parks in the blocking send of the
  \<open>default\<close> case; the third component is what it logs. A parked call goes on when a
  receive wakes it, and \<open>Fire_woken\<close> is what it returns then.
\<close>

datatype fire = FireReturned "error option" | FireParked

definition Fire :: "'v Hook \<Rightarrow> addr \<Rightarrow> fire \<times> 'v Hook \<times> event list" where
  "Fire h entry =
     (case chan_send_nb (fireChannel h) entry of
        Some ch \<Rightarrow> (FireReturned None, h\<lparr>fireChannel := ch\<rparr>, [])
      | None \<Rightarrow>
          if WaitUntilBufferFrees h
          then (FireParked, h\<lparr>fireChannel := chan_park (fireChannel h) entry\<rparr>, [])
          else (FireReturned None, h, [Errorf ''dropped a message'']))"

definition Fire_woken :: "error option" where
  "Fire_woken = None"

section \<open>Flush\<close>

text \<open>
  What a call of \<open>Flush\<close> observes of the clock and of the other goroutines:
  \<open>clock n\<close> is the \<open>n\<close>-th reading of \<open>time.Now()\<close> (reading 0 computes \<open>expireAt\<close>,
  reading \<open>n + 1\<close> is the loop condition of round \<open>n\<close>), \<open>granted n\<close> tells whether the
  \<open>Lock\<close> of round \<open>n\<close> returns, and \<open>queued n\<close> is \<open>len(h.fireChannel)\<close> in round
  \<open>n\<close>. \<open>polled n\<close> is the time at which round \<open>n\<close> has got the lock and takes the
  length of the queue; the code does not read the clock there, so \<open>Flush\<close> does not
  depend on it.
\<close>

record observer =
  clock :: "nat \<Rightarrow> int"
  granted :: "nat \<Rightarrow> bool"
  queued :: "nat \<Rightarrow> nat"
  polled :: "nat \<Rightarrow> int"

partial_function (option) Flush_loop ::
  "observer \<Rightarrow> int \<Rightarrow> nat \<Rightarrow> 'v Hook \<Rightarrow> event list
     \<Rightarrow> (error option \<times> 'v Hook \<times> event list) option" where
  "Flush_loop ob expireAt i h tr =
     (if clock ob (Suc i) < expireAt then
        (if granted ob i then
           (let h1 = h\<lparr>sendingLocker := True\<rparr>;
                h2 = h1\<lparr>sendingLocker := False\<rparr>;
                n = queued ob i;
                tr1 = tr @ [Lock, Unlock, Len n]
            in if n = 0 then Some (None, h2, tr1)
               else Flush_loop ob expireAt (Suc i) h2 (tr1 @ [Sleep millisecond]))
         else None)
      else Some (Some DeadlineExceeded, h, tr))"

declare Flush_loop.simps [code]

definition Flush ::
  "observer \<Rightarrow> 'v Hook \<Rightarrow> int \<Rightarrow> (error option \<times> 'v Hook \<times> event list) option" where
  "Flush ob h timeout = Flush_loop ob (clock ob 0 + timeout) 0 h []"

section \<open>The sending goroutine and its producers\<close>

text \<open>
  The goroutine started by \<open>init\<close>: before its first step, between two entries, ended
  by a panic, or inside a call that never returns.
\<close>

datatype goroutine = Starting | Receiving | Dead | Stuck

text \<open>
  The hook with the store of entries and the environment. The last four fields record
  the history: the entries in the order their sends completed, in the order the loop
  received them, the ones whose \<open>sendMessage\<close> returned, and the calls of \<open>Fire\<close> that
  returned, each with its result.
\<close>

record 'v system =
  hook :: "'v Hook"
  heap :: "addr \<Rightarrow> 'v Entry"
  net :: world
  sender :: goroutine
  logged :: "event list"
  accepted :: "addr list"
  received :: "addr list"
  sent :: "addr list"
  returns :: "(addr \<times> error option) list"

datatype action = CallFire addr | SenderStep

text \<open>The entry after the first loop of \<open>sendMessage\<close>.\<close>

definition merged :: "'v Hook \<Rightarrow> 'v Entry \<Rightarrow> 'v Entry" where
  "merged h e =
     (case mergeFields (alwaysSentFields h) (Data e) of
        None \<Rightarrow> e
      | Some d \<Rightarrow> e\<lparr>Data := d\<rparr>)"

text \<open>
  One step. A producer calls \<open>Fire\<close>, or the goroutine of \<open>init\<close> goes on: it connects
  when there is no connection, then receives the next entry and sends it. A call of
  \<open>Fire\<close> and the handling of one entry are taken as one step each.
\<close>

definition fire_step :: "addr \<Rightarrow> 'v system \<Rightarrow> 'v system" where
  "fire_step p s =
     (case Fire (hook s) p of
        (r, h', evs) \<Rightarrow>
          s\<lparr>hook := h',
            logged := logged s @ evs,
            accepted := accepted s @
              (if chan_send_nb (fireChannel (hook s)) p = None then [] else [p]),
            returns := returns s @
              (case r of FireReturned e \<Rightarrow> [(p, e)] | FireParked \<Rightarrow> [])\<rparr>)"

definition sender_step :: "'v format \<Rightarrow> 'v system \<Rightarrow> 'v system" where
  "sender_step FormatWithPrefix s =
     (case sender s of
        Starting \<Rightarrow>
          (if conn (hook s) = None
           then (case reconnect (hook s) (net s) of
                   None \<Rightarrow> s\<lparr>sender := Stuck\<rparr>
                 | Some (h', w') \<Rightarrow> s\<lparr>hook := h', net := w', sender := Receiving\<rparr>)
           else s\<lparr>sender := Receiving\<rparr>)
      | Receiving \<Rightarrow>
          (case chan_recv (fireChannel (hook s)) of
             (ch, None, woken) \<Rightarrow> s\<lparr>hook := (hook s)\<lparr>fireChannel := ch\<rparr>\<rparr>
           | (ch, Some p, woken) \<Rightarrow>
               (let h1 = (hook s)\<lparr>fireChannel := ch\<rparr>;
                    s1 = s\<lparr>received := received s @ [p],
                           accepted := accepted s @
                             (case woken of None \<Rightarrow> [] | Some y \<Rightarrow> [y]),
                           returns := returns s @
                             (case woken of None \<Rightarrow> [] | Some y \<Rightarrow> [(y, Fire_woken)])\<rparr>
                in case sendMessage FormatWithPrefix h1 (heap s p) (net s) of
                     None \<Rightarrow>
                       s1\<lparr>hook := h1\<lparr>sendingLocker := True\<rparr>,
                          heap := (heap s)(p := merged h1 (heap s p)),
                          sender := Stuck\<rparr>
                   | Some (Panicked, h', e', w') \<Rightarrow>
                       s1\<lparr>hook := h',
                          heap := (heap s)(p := e'),
                          net := emit (Errorf ''the fireChannel handler is closed'') w',
                          sender := Dead\<rparr>
                   | Some (Returned err, h', e', w') \<Rightarrow>
                       s1\<lparr>hook := h',
                          heap := (heap s)(p := e'),
                          net := (case err of
                                    None \<Rightarrow> w'
                                  | Some e \<Rightarrow> emit (Errorf ''unable to send the message'') w'),
                          sent := sent s @ [p]\<rparr>))
      | Dead \<Rightarrow> s
      | Stuck \<Rightarrow> s)"

fun step :: "'v format \<Rightarrow> action \<Rightarrow> 'v system \<Rightarrow> 'v system" where
  "step FormatWithPrefix (CallFire p) s = fire_step p s"
| "step FormatWithPrefix SenderStep s = sender_step FormatWithPrefix s"

definition run :: "'v format \<Rightarrow> action list \<Rightarrow> 'v system \<Rightarrow> 'v system" where
  "run FormatWithPrefix acts s = fold (step FormatWithPrefix) acts s"

section \<open>Construction\<close>

text \<open>
  The constructors: no connection yet, a channel of capacity 65536, every other field
  at its zero value. \<open>started\<close> is the system right after \<open>init\<close> has started the
  goroutine.
\<close>

definition NewHookWithFieldsAndConnAndPrefix ::
  "string \<Rightarrow> string \<Rightarrow> string \<Rightarrow> 'v Fields \<Rightarrow> string \<Rightarrow> 'v Hook" where
  "NewHookWithFieldsAndConnAndPrefix protocol' address' appName' alwaysSentFields' prefix' =
     \<lparr>sendingLocker = False, conn = None, protocol = protocol', address = address',
      appName = appName', alwaysSentFields = alwaysSentFields', hookOnlyPrefix = prefix',
      TimeFormat = [],
      fireChannel = \<lparr>buf = [], cap = 65536, sendq = [], receiver = NotWaiting\<rparr>,
      WaitUntilBufferFrees = False, Timeout = 0, MaxSendRetries = 0,
      ReconnectBaseDelay = 0, ReconnectDelayMultiplier = 0, MaxReconnectRetries = 0\<rparr>"

definition NewHookWithFieldsAndConn ::
  "string \<Rightarrow> string \<Rightarrow> string \<Rightarrow> 'v Fields \<Rightarrow> 'v Hook" where
  "NewHookWithFieldsAndConn protocol' address' appName' alwaysSentFields' =
     NewHookWithFieldsAndConnAndPrefix protocol' address' appName' alwaysSentFields' []"

definition NewHookWithFieldsAndPrefix ::
  "string \<Rightarrow> string \<Rightarrow> string \<Rightarrow> 'v Fields \<Rightarrow> string \<Rightarrow> 'v Hook" where
  "NewHookWithFieldsAndPrefix protocol' address' appName' alwaysSentFields' prefix' =
     NewHookWithFieldsAndConnAndPrefix protocol' address' appName' alwaysSentFields' prefix'"

definition NewHookWithFields ::
  "string \<Rightarrow> string \<Rightarrow> string \<Rightarrow> 'v Fields \<Rightarrow> 'v Hook" where
  "NewHookWithFields protocol' address' appName' alwaysSentFields' =
     NewHookWithFieldsAndPrefix protocol' address' appName' alwaysSentFields' []"

definition NewHook :: "string \<Rightarrow> string \<Rightarrow> string \<Rightarrow> 'v Hook" where
  "NewHook protocol' address' appName' = NewHookWithFields protocol' address' appName' []"

definition started :: "'v Hook \<Rightarrow> (addr \<Rightarrow> 'v Entry) \<Rightarrow> world \<Rightarrow> 'v system" where
  "started h hp w =
     \<lparr>hook = h, heap = hp, net = w, sender = Starting, logged = [], accepted = [],
      received = [], sent = [], returns = []\<rparr>"

section \<open>Notions used to state the properties\<close>

text \<open>
  The index expression \<open>m[k]\<close> on a map that may be nil: the value stored under the
  key, \<open>None\<close> when the key is absent.
\<close>

definition lookup :: "'v Fields option \<Rightarrow> string \<Rightarrow> 'v option" where
  "lookup d k = (case d of None \<Rightarrow> None | Some m \<Rightarrow> map_of m k)"

text \<open>The formatter \<open>sendMessage\<close> builds from the hook.\<close>

definition formatter_of :: "'v Hook \<Rightarrow> LogstashFormatter" where
  "formatter_of h =
     (if TimeFormat h \<noteq> [] then \<lparr>Type = appName h, TimestampFormat = TimeFormat h\<rparr>
      else \<lparr>Type = appName h, TimestampFormat = []\<rparr>)"

text \<open>The delay of the \<open>n\<close>-th sleep of a retry loop.\<close>

definition backoff :: "nat \<Rightarrow> int" where
  "backoff n = (next_delay ^^ n) (10 * millisecond)"

text \<open>The durations slept, and the byte sequences of the writes that succeeded, in a trace.\<close>

definition sleeps :: "event list \<Rightarrow> int list" where
  "sleeps tr = concat (map (\<lambda>ev. case ev of Sleep d \<Rightarrow> [d] | _ \<Rightarrow> []) tr)"

definition written :: "event list \<Rightarrow> bytes list" where
  "written tr =
     concat (map (\<lambda>ev. case ev of Write c data ok \<Rightarrow> (if ok then [data] else []) | _ \<Rightarrow> []) tr)"

text \<open>
  The events of \<open>k\<close> dials that fail, from the delay \<open>d\<close> on, and the time slept
  between them.
\<close>

fun dial_retries :: "'v Hook \<Rightarrow> int \<Rightarrow> nat \<Rightarrow> event list" where
  "dial_retries h d 0 = []"
| "dial_retries h d (Suc k) =
     Dial (protocol h) (address h) False # Errorf ''unable to connect'' # Sleep d #
     dial_retries h (next_delay d) k"

fun waited :: "int \<Rightarrow> nat \<Rightarrow> int" where
  "waited d 0 = 0"
| "waited d (Suc k) = d + waited (next_delay d) k"

text \<open>
  A run of the write loop in which the writes fail \<open>length ks\<close> times, and the reconnect
  after the \<open>i\<close>-th failure dials \<open>ks ! i\<close> times in vain before a dial succeeds:
  \<open>dials_as\<close> says that the dials from number \<open>n\<close> on turn out this way,
  \<open>write_retries\<close> lists the events (\<open>c\<close> is the connection, \<open>d\<close> the delay),
  \<open>final_conn\<close> is the connection in the end and \<open>write_waited\<close> the time slept.
\<close>

fun dials_as :: "(nat \<Rightarrow> bool) \<Rightarrow> nat \<Rightarrow> nat list \<Rightarrow> bool" where
  "dials_as f n [] = True"
| "dials_as f n (k # ks) =
     ((\<forall>j<k. \<not> f (n + j)) \<and> f (n + k) \<and> dials_as f (n + Suc k) ks)"

fun write_retries ::
  "'v Hook \<Rightarrow> bytes \<Rightarrow> nat \<Rightarrow> nat \<Rightarrow> int \<Rightarrow> nat list \<Rightarrow> event list" where
  "write_retries h data c n d [] = []"
| "write_retries h data c n d (k # ks) =
     [Write c data False, Errorf ''unable to write'', Sleep d] @
     dial_retries h (10 * millisecond) k @
     [Dial (protocol h) (address h) True] @
     write_retries h data (n + k) (n + Suc k) (next_delay d) ks"

fun final_conn :: "nat \<Rightarrow> nat \<Rightarrow> nat list \<Rightarrow> nat" where
  "final_conn c n [] = c"
| "final_conn c n (k # ks) = final_conn (n + k) (n + Suc k) ks"

fun write_waited :: "int \<Rightarrow> nat list \<Rightarrow> int" where
  "write_waited d [] = 0"
| "write_waited d (k # ks) =
     d + waited (10 * millisecond) k + write_waited (next_delay d) ks"

text \<open>
  The events of the rounds \<open>i\<close> to \<open>i + k - 1\<close> of \<open>Flush\<close>, each of which finds the
  queue non-empty and sleeps.
\<close>

fun polls :: "observer \<Rightarrow> nat \<Rightarrow> nat \<Rightarrow> event list" where
  "polls ob i 0 = []"
| "polls ob i (Suc k) =
     [Lock, Unlock, Len (queued ob i), Sleep millisecond] @ polls ob (Suc i) k"

text \<open>
  The elements a channel holds for its receiver, oldest first: the one handed over to
  the parked receiver, then the buffer.
\<close>

definition pending :: "chan \<Rightarrow> addr list" where
  "pending ch = (case receiver ch of Delivered x \<Rightarrow> [x] | _ \<Rightarrow> []) @ buf ch"

text \<open>
  What is to arrive on the connection when the entries behind the pointers \<open>ps\<close> are
  sent one after the other: for each entry the bytes the formatter makes of it after the
  merge, nothing when the formatter fails; the entry is left merged and filtered in the
  store.
\<close>

fun wire :: "'v format \<Rightarrow> 'v Hook \<Rightarrow> (addr \<Rightarrow> 'v Entry) \<Rightarrow> addr list \<Rightarrow> bytes list" where
  "wire F h hp [] = []"
| "wire F h hp (p # ps) =
     (case F (formatter_of h) (merged h (hp p)) (hookOnlyPrefix h) of
        Inl err \<Rightarrow> []
      | Inr b \<Rightarrow> [b]) @
     wire F h (hp(p := filterHookOnly h (merged h (hp p)))) ps"

fun store_after :: "'v Hook \<Rightarrow> (addr \<Rightarrow> 'v Entry) \<Rightarrow> addr list \<Rightarrow> addr \<Rightarrow> 'v Entry" where
  "store_after h hp [] = hp"
| "store_after h hp (p # ps) = store_after h (hp(p := filterHookOnly h (merged h (hp p)))) ps"

text \<open>Two hooks that agree on what the formatter and the two field loops read.\<close>

definition same_config :: "'v Hook \<Rightarrow> 'v Hook \<Rightarrow> bool" where
  "same_config h h0 \<longleftrightarrow>
     alwaysSentFields h = alwaysSentFields h0 \<and> hookOnlyPrefix h = hookOnlyPrefix h0 \<and>
     appName h = appName h0 \<and> TimeFormat h = TimeFormat h0"

text \<open>
  What holds of every state \<open>s\<close> reached from a state \<open>s0\<close>: the entries accepted are
  the ones received followed by the ones the channel holds; all entries received have
  been sent, but for the last one when the goroutine has ended or hangs; and the writes
  that succeeded carry what \<open>wire\<close> tells for the entries sent.
\<close>

definition fifo :: "'v format \<Rightarrow> 'v system \<Rightarrow> 'v system \<Rightarrow> bool" where
  "fifo F s0 s \<longleftrightarrow>
     same_config (hook s) (hook s0) \<and>
     (receiver (fireChannel (hook s)) = Waiting \<longrightarrow> buf (fireChannel (hook s)) = []) \<and>
     accepted s = received s @ pending (fireChannel (hook s)) \<and>
     (case sender s of
        Dead \<Rightarrow> (\<exists>p. received s = sent s @ [p])
      | Stuck \<Rightarrow> received s = sent s \<or> (\<exists>p. received s = sent s @ [p])
      | _ \<Rightarrow> received s = sent s \<and> heap s = store_after (hook s0) (heap s0) (sent s)) \<and>
     written (trace (net s)) =
       written (trace (net s0)) @ wire F (hook s0) (heap s0) (sent s)"

text \<open>
  The hook, the entry and the environment of the test \<open>TestFire\<close>: a connection that
  accepts every write, and a formatter that writes the fields in order, the prefix taken
  off the keys that carry it.
\<close>

definition test_hook :: "string Hook" where
  "test_hook =
     \<lparr>sendingLocker = False, conn = Some 0, protocol = [], address = [],
      appName = ''fire_test'',
      alwaysSentFields =
        [(''test-name'', ''fire-test''), (''->ignore'', ''haaa''), (''override'', ''no'')],
      hookOnlyPrefix = ''->'', TimeFormat = [],
      fireChannel = \<lparr>buf = [], cap = 10, sendq = [], receiver = NotWaiting\<rparr>,
      WaitUntilBufferFrees = False, Timeout = 0, MaxSendRetries = 0,
      ReconnectBaseDelay = 0, ReconnectDelayMultiplier = 0, MaxReconnectRetries = 0\<rparr>"

definition test_entry :: "string Entry" where
  "test_entry =
     \<lparr>Data = Some [(''override'', ''yes'')], Time = 0, Level = DebugLevel,
      Message = ''hello world!''\<rparr>"

definition test_world :: world where
  "test_world =
     \<lparr>dial_ok = (\<lambda>n. True), write_ok = (\<lambda>n. True), dials = 0, writes = 0, now = 0,
      trace = []\<rparr>"

definition test_format :: "string format" where
  "test_format f e p =
     (case Data e of
        None \<Rightarrow> Inl (FormatError ''no fields'')
      | Some m \<Rightarrow>
          Inr (concat (map (\<lambda>(k, v). (if p \<noteq> [] \<and> HasPrefix k p then drop (length p) k else k)
                                      @ ''='' @ v @ '';'') m)))"

text \<open>
  A network on which the first dial and the first write fail and all later ones
  succeed, and one on which nothing ever succeeds.
\<close>

definition flaky_world :: world where
  "flaky_world =
     \<lparr>dial_ok = (\<lambda>n. 1 \<le> n), write_ok = (\<lambda>n. 1 \<le> n), dials = 0, writes = 0, now = 0,
      trace = []\<rparr>"

definition dead_world :: world where
  "dead_world =
     \<lparr>dial_ok = (\<lambda>n. False), write_ok = (\<lambda>n. False), dials = 0, writes = 0, now = 0,
      trace = []\<rparr>"

text \<open>
  An observer of \<open>Flush\<close> whose clock advances two milliseconds from reading to
  reading, and who sees the queue shrink from two entries to none.
\<close>

definition draining :: observer where
  "draining =
     \<lparr>clock = (\<lambda>n. 2 * millisecond * int n), granted = (\<lambda>n. True),
      queued = (\<lambda>n. 2 - n), polled = (\<lambda>n. 2 * millisecond * int (Suc n))\<rparr>"

text \<open>
  Two more observers of \<open>Flush\<close>. For \<open>held\<close> the clock advances one millisecond from
  reading to reading, one entry is queued, and the mutex is never released, as when the
  sending goroutine is inside \<open>performSend\<close> and the network is down. For \<open>late\<close> the
  queue is empty and the first round starts at time 0, but it gets the lock only 200
  milliseconds later.
\<close>

definition held :: observer where
  "held =
     \<lparr>clock = (\<lambda>n. millisecond * int n), granted = (\<lambda>n. False),
      queued = (\<lambda>n. 1), polled = (\<lambda>n. millisecond * int (Suc n))\<rparr>"

definition late :: observer where
  "late =
     \<lparr>clock = (\<lambda>n. 200 * millisecond * int (n - 1)), granted = (\<lambda>n. True),
      queued = (\<lambda>n. 0), polled = (\<lambda>n. 200 * millisecond * int (Suc n))\<rparr>"

text \<open>
  An entry built as \<open>&logrus.Entry{...}\<close> with no \<open>Data\<close>, as the entries of the test
  \<open>TestLogstashTimeStampFormat\<close> are: its field mapping is nil.
\<close>

definition nil_entry :: "string Entry" where
  "nil_entry = \<lparr>Data = None, Time = 0, Level = DebugLevel, Message = ''hello world!''\<rparr>"

text \<open>
  A system at its start: the hook of the test with its connection, two entries in the
  store, the network whose first dial and first write fail; and a schedule in which two
  calls of \<open>Fire\<close> alternate with the steps of the sending goroutine.
\<close>

definition test_system :: "string system" where
  "test_system =
     \<lparr>hook = test_hook,
      heap = (\<lambda>p. \<lparr>Data = Some [(''id'', if p = 0 then ''a'' else ''b'')], Time = 0,
                    Level = InfoLevel, Message = ''m''\<rparr>),
      net = flaky_world, sender = Starting, logged = [], accepted = [], received = [],
      sent = [], returns = []\<rparr>"

definition test_schedule :: "action list" where
  "test_schedule =
     [CallFire 0, SenderStep, CallFire 1, SenderStep, SenderStep, SenderStep]"

text \<open>
  A system whose channel of capacity one is full, with the policy to wait, and whose
  goroutine is about to receive.
\<close>

definition full_system :: "string system" where
  "full_system =
     test_system
       \<lparr>hook := test_hook
          \<lparr>fireChannel := \<lparr>buf = [0], cap = 1, sendq = [], receiver = NotWaiting\<rparr>,
           WaitUntilBufferFrees := True\<rparr>,
        sender := Receiving, accepted := [0]\<rparr>"

section \<open>Levels\<close>

text \<open>
  Claim C8. \<open>Levels\<close> returns, for every hook, the list of the seven severities in the
  order panic, fatal, error, warn, info, debug, trace; the list has no repetition and
  leaves no severity out.
\<close>

theorem Levels_all_seven:
  "Levels h = [PanicLevel, FatalLevel, ErrorLevel, WarnLevel, InfoLevel, DebugLevel, TraceLevel]
   \<and> distinct (Levels h) \<and> set (Levels h) = UNIV"
proof -
  have "l \<in> set (Levels h)" for l
    by (cases l) (simp_all add: Levels_def)
  then have "set (Levels h) = UNIV" by blast
  then show ?thesis by (simp add: Levels_def)
qed

section \<open>Merging the static fields\<close>

lemma HasPrefix_prefix: "HasPrefix s p = prefix p s"
  unfolding HasPrefix_def prefix_def
  by (metis append_eq_conv_conj append_take_drop_id length_append le_add1)

lemma mergeFields_Some:
  "\<exists>m'. mergeFields s (Some m) = Some (Some m') \<and>
        (\<forall>x. map_of m' x = (case map_of m x of None \<Rightarrow> map_of s x | Some u \<Rightarrow> Some u))"
proof (induction s arbitrary: m)
  case Nil
  then show ?case by (auto split: option.splits)
next
  case (Cons kv s)
  obtain k v where kv: "kv = (k, v)" by (cases kv)
  show ?case
  proof (cases "map_of m k")
    case None
    from Cons.IH [of "AList.update k v m"] obtain m' where
      m': "mergeFields s (Some (AList.update k v m)) = Some (Some m')"
          "\<forall>x. map_of m' x =
                (case map_of (AList.update k v m) x of None \<Rightarrow> map_of s x | Some u \<Rightarrow> Some u)"
      by blast
    have "\<forall>x. map_of m' x = (case map_of m x of None \<Rightarrow> map_of (kv # s) x | Some u \<Rightarrow> Some u)"
      using None m'(2) by (auto simp: kv update_conv' split: option.splits)
    with m'(1) None show ?thesis by (simp add: kv)
  next
    case (Some u)
    from Cons.IH [of m] obtain m' where
      m': "mergeFields s (Some m) = Some (Some m')"
          "\<forall>x. map_of m' x = (case map_of m x of None \<Rightarrow> map_of s x | Some u \<Rightarrow> Some u)"
      by blast
    have "\<forall>x. map_of m' x = (case map_of m x of None \<Rightarrow> map_of (kv # s) x | Some u \<Rightarrow> Some u)"
      using Some m'(2) by (auto simp: kv split: option.splits)
    with m'(1) Some show ?thesis by (simp add: kv)
  qed
qed

lemma mergeFields_nil: "mergeFields s None = (if s = [] then Some None else None)"
  by (cases s) auto

lemma mergeFields_cases:
  "(case mergeFields s d of
      None \<Rightarrow> d = None \<and> s \<noteq> []
    | Some d' \<Rightarrow>
        \<forall>k. lookup d' k = (case lookup d k of None \<Rightarrow> map_of s k | Some v \<Rightarrow> Some v))"
proof (cases d)
  case None
  then show ?thesis by (simp add: mergeFields_nil lookup_def)
next
  case (Some m)
  with mergeFields_Some [of s m] show ?thesis by (auto simp: lookup_def)
qed

lemma sendMessage_unfold:
  "sendMessage F h entry w =
     (case mergeFields (alwaysSentFields h) (Data entry) of
        None \<Rightarrow> Some (Panicked, h, filterHookOnly h entry, w)
      | Some d \<Rightarrow>
          (case F (formatter_of h) (entry\<lparr>Data := d\<rparr>) (hookOnlyPrefix h) of
             Inl err \<Rightarrow> Some (Returned (Some err), h, filterHookOnly h (entry\<lparr>Data := d\<rparr>), w)
           | Inr b \<Rightarrow>
               (case performSend (h\<lparr>sendingLocker := True\<rparr>) b (emit Lock w) of
                  None \<Rightarrow> None
                | Some (r, h', w') \<Rightarrow>
                    Some (case r of Returned u \<Rightarrow> Returned None | Panicked \<Rightarrow> Panicked,
                          h'\<lparr>sendingLocker := False\<rparr>,
                          filterHookOnly h' (entry\<lparr>Data := d\<rparr>),
                          emit Unlock w'))))"
  by (simp add: sendMessage_def formatter_of_def Let_def split: option.splits)

lemma sendMessage_merges_absent_keys:
  assumes "Data entry = Some m"
  shows "\<exists>m'. (\<forall>k. map_of m' k =
                  (case map_of m k of
                     None \<Rightarrow> map_of (alwaysSentFields h) k
                   | Some v \<Rightarrow> Some v))
            \<and> sendMessage F h entry w =
                (case F (formatter_of h) (entry\<lparr>Data := Some m'\<rparr>) (hookOnlyPrefix h) of
                   Inl err \<Rightarrow>
                     Some (Returned (Some err), h,
                           filterHookOnly h (entry\<lparr>Data := Some m'\<rparr>), w)
                 | Inr b \<Rightarrow>
                     (case performSend (h\<lparr>sendingLocker := True\<rparr>) b (emit Lock w) of
                        None \<Rightarrow> None
                      | Some (r, h', w') \<Rightarrow>
                          Some (case r of Returned u \<Rightarrow> Returned None | Panicked \<Rightarrow> Panicked,
                                h'\<lparr>sendingLocker := False\<rparr>,
                                filterHookOnly h' (entry\<lparr>Data := Some m'\<rparr>),
                                emit Unlock w')))"
proof -
  from mergeFields_Some [of "alwaysSentFields h" m] obtain m' where
    m: "mergeFields (alwaysSentFields h) (Some m) = Some (Some m')"
    and l: "\<forall>k. map_of m' k =
              (case map_of m k of None \<Rightarrow> map_of (alwaysSentFields h) k | Some v \<Rightarrow> Some v)"
    by blast
  from m assms have "sendMessage F h entry w =
      (case F (formatter_of h) (entry\<lparr>Data := Some m'\<rparr>) (hookOnlyPrefix h) of
         Inl err \<Rightarrow>
           Some (Returned (Some err), h, filterHookOnly h (entry\<lparr>Data := Some m'\<rparr>), w)
       | Inr b \<Rightarrow>
           (case performSend (h\<lparr>sendingLocker := True\<rparr>) b (emit Lock w) of
              None \<Rightarrow> None
            | Some (r, h', w') \<Rightarrow>
                Some (case r of Returned u \<Rightarrow> Returned None | Panicked \<Rightarrow> Panicked,
                      h'\<lparr>sendingLocker := False\<rparr>,
                      filterHookOnly h' (entry\<lparr>Data := Some m'\<rparr>),
                      emit Unlock w')))"
    by (simp add: sendMessage_unfold)
  with l show ?thesis by blast
qed

lemma filterHookOnly_nil: "Data entry = None \<Longrightarrow> filterHookOnly h entry = entry"
  by (simp add: filterHookOnly_def)

text \<open>
  Claim C3. On an entry whose field mapping is a map, \<open>sendMessage\<close> gives the
  formatter the entry with every key of its own unchanged and every other static key
  added (lemma \<open>sendMessage_merges_absent_keys\<close>). On an entry whose field mapping is
  nil it does not: with a static field \<open>k\<close> to add, the assignment \<open>entry.Data[k] = v\<close>
  panics. \<open>sendMessage\<close> then ends by the panic, whatever the formatter and the
  network are: the entry is left as it was, without the static field, the formatter is
  not called and nothing is written.
\<close>

theorem sendMessage_nil_Data_panics:
  assumes "Data entry = None" and "map_of (alwaysSentFields h) k = Some v"
  shows "sendMessage F h entry w = Some (Panicked, h, entry, w)
       \<and> lookup (Data entry) k = None"
proof -
  from assms(2) have "alwaysSentFields h \<noteq> []" by auto
  with assms(1) have "mergeFields (alwaysSentFields h) (Data entry) = None"
    by (simp add: mergeFields_nil)
  with assms(1) show ?thesis
    by (simp add: sendMessage_unfold filterHookOnly_nil lookup_def)
qed

theorem sendMessage_nil_Data_panics_witness:
  "Data nil_entry = None
   \<and> map_of (alwaysSentFields test_hook) ''test-name'' = Some ''fire-test''
   \<and> sendMessage test_format test_hook nil_entry test_world =
       Some (Panicked, test_hook, nil_entry, test_world)
   \<and> lookup (Data nil_entry) ''test-name'' = None"
proof -
  have d: "Data nil_entry = None" by (simp add: nil_entry_def)
  have s: "map_of (alwaysSentFields test_hook) ''test-name'' = Some ''fire-test''"
    by (simp add: test_hook_def)
  from sendMessage_nil_Data_panics [where entry = nil_entry and h = test_hook
      and k = "''test-name''" and v = "''fire-test''" and F = test_format and w = test_world,
      OF d s] d s
  show ?thesis by simp
qed

text \<open>
  In the goroutine of \<open>init\<close> this panic ends the loop over the channel: the entry is
  left as it was, nothing is written for it, and no later entry is received.
\<close>

lemma sender_step_nil_Data:
  assumes "sender s = Receiving"
    and "chan_recv (fireChannel (hook s)) = (ch, Some p, woken)"
    and "Data (heap s p) = None" and "alwaysSentFields (hook s) \<noteq> []"
  shows "sender (sender_step F s) = Dead
       \<and> heap (sender_step F s) = heap s
       \<and> written (trace (net (sender_step F s))) = written (trace (net s))"
proof -
  have "mergeFields (alwaysSentFields (hook s)) (Data (heap s p)) = None"
    using assms(3,4) by (simp add: mergeFields_nil)
  then have "sendMessage F ((hook s)\<lparr>fireChannel := ch\<rparr>) (heap s p) (net s)
          = Some (Panicked, (hook s)\<lparr>fireChannel := ch\<rparr>, heap s p, net s)"
    using assms(3) by (simp add: sendMessage_unfold filterHookOnly_nil)
  with assms(1,2) show ?thesis
    by (simp add: sender_step_def Let_def written_def emit_def)
qed

section \<open>Stripping the hook-only fields\<close>

lemmas reconnect_loop_induct =
  reconnect_loop.raw_induct [rotated 1, consumes 1, case_names step]

lemmas performSend_loop_induct =
  performSend_loop.raw_induct [rotated 1, consumes 1, case_names step]

lemma fold_delete_conv:
  "map_of (fold (\<lambda>key d. if P key then AList.delete key d else d) ks m) k =
     (if k \<in> set ks \<and> P k then None else map_of m k)"
  by (induction ks arbitrary: m) (auto simp: delete_conv')

lemma self_conn: "\<exists>c. h = h\<lparr>conn := c\<rparr>"
  by (rule exI [of _ "conn h"]) simp

lemma reconnect_loop_frame:
  assumes "reconnect_loop h d w = Some r"
  shows "\<exists>c. fst r = h\<lparr>conn := c\<rparr>"
  using assms
proof (induction rule: reconnect_loop_induct)
  case (step rl h delay w r)
  then show ?case by (auto simp: Let_def split: if_splits)
qed

lemma reconnect_frame:
  assumes "reconnect h w = Some (h', w')"
  shows "\<exists>c. h' = h\<lparr>conn := c\<rparr>"
  using reconnect_loop_frame [of h _ w "(h', w')"] assms by (simp add: reconnect_def)

lemma performSend_loop_frame:
  assumes "performSend_loop h data d w = Some r"
  shows "\<exists>c. fst (snd r) = h\<lparr>conn := c\<rparr>"
  using assms
proof (induction rule: performSend_loop_induct)
  case (step pl h data delay w r)
  show ?case
  proof (cases "conn h")
    case None
    with step(2) have "fst (snd r) = h" by auto
    then show ?thesis using self_conn [of h] by simp
  next
    case (Some c)
    show ?thesis
    proof (cases "write_ok w (writes w)")
      case True
      with step(2) Some have "fst (snd r) = h" by (auto simp: Let_def)
      then show ?thesis using self_conn [of h] by simp
    next
      case False
      with step(2) Some obtain h1 w1 where
        rc: "reconnect h (sleep delay (emit (Errorf ''unable to write'')
               (emit (Write c data False) (w\<lparr>writes := writes w + 1\<rparr>)))) = Some (h1, w1)"
        and pl: "pl h1 data (next_delay delay) w1 = Some r"
        by (auto simp: Let_def bind_eq_Some_conv)
      from reconnect_frame [OF rc] obtain c1 where h1: "h1 = h\<lparr>conn := c1\<rparr>" ..
      from step(1) [OF pl] obtain c2 where "fst (snd r) = h1\<lparr>conn := c2\<rparr>" ..
      with h1 have "fst (snd r) = h\<lparr>conn := c2\<rparr>" by simp
      then show ?thesis ..
    qed
  qed
qed

lemma performSend_frame:
  assumes "performSend h data w = Some (r, h', w')"
  shows "\<exists>c. h' = h\<lparr>conn := c\<rparr>"
proof (cases "0 < Timeout h \<and> conn h = None")
  case True
  with assms have "h' = h" by (simp add: performSend_def)
  then show ?thesis using self_conn [of h] by simp
next
  case False
  with assms obtain w1 where
    "performSend_loop h data (10 * millisecond) w1 = Some (r, h', w')"
    by (auto simp: performSend_def split: if_splits option.splits)
  from performSend_loop_frame [OF this] show ?thesis by simp
qed

lemma filterHookOnly_conn [simp]:
  "filterHookOnly (h\<lparr>conn := c\<rparr>) e = filterHookOnly h e"
  by (simp add: filterHookOnly_def split: option.splits)

lemma filterHookOnly_locker [simp]:
  "filterHookOnly (h\<lparr>sendingLocker := c\<rparr>) e = filterHookOnly h e"
  by (simp add: filterHookOnly_def split: option.splits)

lemma in_keys_iff: "k \<in> set (map fst m) \<longleftrightarrow> map_of m k \<noteq> None"
  by (simp add: map_of_eq_None_iff)

lemma lookup_filterHookOnly:
  "lookup (Data (filterHookOnly h e)) k =
     (if hookOnlyPrefix h \<noteq> [] \<and> HasPrefix k (hookOnlyPrefix h) then None
      else lookup (Data e) k)"
proof (cases "Data e")
  case None
  then show ?thesis by (simp add: filterHookOnly_def lookup_def)
next
  case (Some m)
  show ?thesis
  proof (cases "hookOnlyPrefix h = []")
    case True
    then show ?thesis by (simp add: filterHookOnly_def)
  next
    case False
    have "lookup (Data (filterHookOnly h e)) k =
            (if k \<in> set (map fst m) \<and> HasPrefix k (hookOnlyPrefix h) then None
             else map_of m k)"
      using Some False by (simp add: filterHookOnly_def lookup_def fold_delete_conv)
    also have "\<dots> = (if HasPrefix k (hookOnlyPrefix h) then None else map_of m k)"
      unfolding in_keys_iff by auto
    finally show ?thesis using Some False by (simp add: lookup_def)
  qed
qed

lemma sendMessage_entry:
  assumes "sendMessage F h entry w = Some (r, h', entry', w')"
  shows "entry' = filterHookOnly h (merged h entry)"
proof (cases "mergeFields (alwaysSentFields h) (Data entry)")
  case None
  with assms show ?thesis by (auto simp: sendMessage_unfold merged_def)
next
  case (Some d)
  show ?thesis
  proof (cases "F (formatter_of h) (entry\<lparr>Data := d\<rparr>) (hookOnlyPrefix h)")
    case (Inl err)
    with assms Some show ?thesis by (auto simp: sendMessage_unfold merged_def)
  next
    case (Inr b)
    with assms Some obtain r0 h0 w0 where
      ps: "performSend (h\<lparr>sendingLocker := True\<rparr>) b (emit Lock w) = Some (r0, h0, w0)"
      and e: "entry' = filterHookOnly h0 (entry\<lparr>Data := d\<rparr>)"
      by (auto simp: sendMessage_unfold split: option.splits)
    from performSend_frame [OF ps] obtain c where
      "h0 = h\<lparr>sendingLocker := True, conn := c\<rparr>" by auto
    with e Some show ?thesis by (simp add: merged_def)
  qed
qed

lemma lookup_merged_keeps:
  assumes "lookup (Data entry) k = Some v"
  shows "lookup (Data (merged h entry)) k = Some v"
proof (cases "mergeFields (alwaysSentFields h) (Data entry)")
  case None
  with assms show ?thesis by (simp add: merged_def)
next
  case (Some d)
  with mergeFields_cases [where s = "alwaysSentFields h" and d = "Data entry"] assms
  show ?thesis by (simp add: merged_def)
qed

lemma option_fst_SomeE:
  assumes "map_option fst x = Some a"
  obtains b where "x = Some (a, b)"
  using assms by (cases x) auto

text \<open>
  Claim C4. With a non-empty hook-only prefix, whenever \<open>sendMessage\<close> returns, with
  the error of the formatter, without error or by a panic, the field mapping of the
  entry has no key that starts with the prefix, and a key that does not start with it is
  as the merge left it; a key of this kind that the entry had before the call is still
  there with its value.
\<close>

theorem sendMessage_strips_hook_only:
  assumes "hookOnlyPrefix h \<noteq> []"
    and "sendMessage F h entry w = Some (r, h', entry', w')"
  shows "(\<forall>k. HasPrefix k (hookOnlyPrefix h) \<longrightarrow> lookup (Data entry') k = None)
       \<and> (\<forall>k. \<not> HasPrefix k (hookOnlyPrefix h) \<longrightarrow>
              lookup (Data entry') k = lookup (Data (merged h entry)) k
            \<and> (\<forall>v. lookup (Data entry) k = Some v \<longrightarrow> lookup (Data entry') k = Some v))"
proof -
  from sendMessage_entry [OF assms(2)] have e: "entry' = filterHookOnly h (merged h entry)" .
  show ?thesis
    unfolding e using assms(1) by (simp add: lookup_filterHookOnly lookup_merged_keeps)
qed

theorem sendMessage_strips_hook_only_witness:
  "hookOnlyPrefix test_hook \<noteq> []
   \<and> (case sendMessage test_format test_hook test_entry test_world of
        None \<Rightarrow> False
      | Some (r, h', entry', w') \<Rightarrow>
          r = Returned None
        \<and> lookup (Data entry') ''->ignore'' = None
        \<and> lookup (Data entry') ''override'' = Some ''yes''
        \<and> lookup (Data entry') ''test-name'' = Some ''fire-test'')
   \<and> (case sendMessage (\<lambda>f e p. Inl (FormatError ''unsupported value'')) test_hook
             test_entry test_world of
        None \<Rightarrow> False
      | Some (r, h', entry', w') \<Rightarrow>
          r = Returned (Some (FormatError ''unsupported value''))
        \<and> lookup (Data entry') ''->ignore'' = None
        \<and> lookup (Data entry') ''override'' = Some ''yes''
        \<and> lookup (Data entry') ''test-name'' = Some ''fire-test'')"
proof -
  have p: "hookOnlyPrefix test_hook \<noteq> []" by (simp add: test_hook_def)
  have i: "HasPrefix ''->ignore'' (hookOnlyPrefix test_hook)"
    and o: "\<not> HasPrefix ''override'' (hookOnlyPrefix test_hook)"
    and t: "\<not> HasPrefix ''test-name'' (hookOnlyPrefix test_hook)"
    by (simp_all add: test_hook_def HasPrefix_def)
  have m: "lookup (Data (merged test_hook test_entry)) ''override'' = Some ''yes''"
    "lookup (Data (merged test_hook test_entry)) ''test-name'' = Some ''fire-test''"
    by (simp_all add: merged_def test_hook_def test_entry_def lookup_def)
  have "map_option fst (sendMessage test_format test_hook test_entry test_world)
          = Some (Returned None)"
    by code_simp
  then obtain b1 where
    s1: "sendMessage test_format test_hook test_entry test_world = Some (Returned None, b1)"
    by (rule option_fst_SomeE)
  obtain h1 e1 w1 where b1: "b1 = (h1, e1, w1)" by (cases b1)
  have "map_option fst (sendMessage (\<lambda>f e p. Inl (FormatError ''unsupported value''))
            test_hook test_entry test_world)
          = Some (Returned (Some (FormatError ''unsupported value'')))"
    by code_simp
  then obtain b2 where
    s2: "sendMessage (\<lambda>f e p. Inl (FormatError ''unsupported value'')) test_hook
             test_entry test_world
           = Some (Returned (Some (FormatError ''unsupported value'')), b2)"
    by (rule option_fst_SomeE)
  obtain h2 e2 w2 where b2: "b2 = (h2, e2, w2)" by (cases b2)
  note r1 = sendMessage_strips_hook_only [OF p s1 [unfolded b1]]
  note r2 = sendMessage_strips_hook_only [OF p s2 [unfolded b2]]
  have "lookup (Data e1) ''->ignore'' = None"
    using r1 [THEN conjunct1, rule_format, OF i] .
  moreover have "lookup (Data e1) ''override'' = Some ''yes''"
    using r1 [THEN conjunct2, rule_format, OF o, THEN conjunct1] m(1) by simp
  moreover have "lookup (Data e1) ''test-name'' = Some ''fire-test''"
    using r1 [THEN conjunct2, rule_format, OF t, THEN conjunct1] m(2) by simp
  moreover have "lookup (Data e2) ''->ignore'' = None"
    using r2 [THEN conjunct1, rule_format, OF i] .
  moreover have "lookup (Data e2) ''override'' = Some ''yes''"
    using r2 [THEN conjunct2, rule_format, OF o, THEN conjunct1] m(1) by simp
  moreover have "lookup (Data e2) ''test-name'' = Some ''fire-test''"
    using r2 [THEN conjunct2, rule_format, OF t, THEN conjunct1] m(2) by simp
  ultimately show ?thesis using p by (simp add: s1 s2 b1 b2)
qed

section \<open>The delays of the retry loops\<close>

lemma next_delay_le_second: "next_delay d \<le> second"
  by (simp add: next_delay_def Let_def)

lemma next_delay_min: "next_delay d = min (d * 6 div 5) second"
  by (simp add: next_delay_def Let_def min_def)

lemma next_delay_ge: "0 \<le> d \<Longrightarrow> d \<le> second \<Longrightarrow> d \<le> next_delay d"
  unfolding next_delay_def Let_def by (simp split: if_splits) presburger

lemma next_delay_gt: "5 \<le> d \<Longrightarrow> d < second \<Longrightarrow> d < next_delay d"
  unfolding next_delay_def Let_def by (simp split: if_splits) presburger

lemma fl_int:
  assumes "float64_rounding fl" and "\<bar>n\<bar> < 2 ^ 53"
  shows "fl (of_int n) = of_int n"
  using assms unfolding float64_rounding_def by blast

lemma fl_err:
  assumes "float64_rounding fl" and "1 \<le> \<bar>x\<bar>" and "\<bar>x\<bar> < 2 ^ 53"
  shows "\<bar>fl x - x\<bar> \<le> \<bar>x\<bar> / 2 ^ 53"
  using assms unfolding float64_rounding_def by blast

lemma trunc_quotient:
  assumes fl: "float64_rounding fl" and m: "6 \<le> m \<or> m = 0" "m \<le> 6 * second"
  shows "trunc (fl (of_int m / 5)) = m div 5"
proof (cases "m mod 5 = 0")
  case True
  then have "(of_int m :: real) / 5 = of_int (m div 5)"
    by (metis (no_types) mod_0_imp_dvd of_int_numeral real_of_int_div)
  moreover have "\<bar>m div 5\<bar> < 2 ^ 53" using m by (auto simp: second_def)
  moreover have "0 \<le> m div 5" using m by auto
  ultimately show ?thesis using fl_int [OF fl, of "m div 5"] by (simp add: trunc_def)
next
  case False
  with m have m6: "6 \<le> m" by auto
  define q where "q = m div 5"
  define f where "f = m mod 5"
  have f: "1 \<le> f" "f \<le> 4" using False by (auto simp: f_def) 
  have mq: "m = 5 * q + f" by (simp add: q_def f_def)
  define x :: real where "x = of_int m / 5"
  have x: "x = of_int q + of_int f / 5" by (simp add: x_def mq)
  have xb: "1 \<le> x" "x < 2 ^ 53" "x \<le> 2 ^ 31"
    using m6 m(2) by (simp_all add: x_def second_def)
  then have "\<bar>fl x - x\<bar> \<le> \<bar>x\<bar> / 2 ^ 53"
    by (intro fl_err [OF fl]) simp_all
  also have "\<dots> \<le> 2 ^ 31 / 2 ^ 53" using xb by (intro divide_right_mono) simp_all
  also have "\<dots> < 1 / 10" by simp
  finally have e: "\<bar>fl x - x\<bar> < 1 / 10" .
  have fr: "1 \<le> (of_int f :: real)" "(of_int f :: real) \<le> 4"
    using f by simp_all
  have e': "fl x - x < 1 / 10" "x - fl x < 1 / 10"
    using e by linarith+
  have "of_int q \<le> fl x" "fl x < of_int q + 1"
    using e' fr x by linarith+
  then have "\<lfloor>fl x\<rfloor> = q" by (simp add: floor_unique)
  moreover have "0 \<le> fl x" using e xb by linarith
  ultimately show ?thesis by (simp add: trunc_def x_def q_def)
qed

lemma float_step_next_delay:
  assumes "float64_rounding fl" and "0 \<le> delay" and "delay \<le> second"
  shows "float_step fl delay = next_delay delay"
proof -
  have "\<bar>delay\<bar> < 2 ^ 53" "\<bar>delay * 6\<bar> < 2 ^ 53"
    using assms(2,3) by (simp_all add: second_def)
  then have "fl (of_int delay) = of_int delay" "fl (of_int (delay * 6)) = of_int (delay * 6)"
    by (simp_all only: fl_int [OF assms(1)])
  then have "fl (fl (of_int delay) * 6) = of_int (delay * 6)"
    by simp
  moreover have "trunc (fl (of_int (delay * 6) / 5)) = delay * 6 div 5"
    using assms by (intro trunc_quotient) auto
  ultimately show ?thesis
    by (simp add: float_step_def next_delay_def)
qed

lemma float64_rounding_exact: "float64_rounding (\<lambda>x. x)"
  by (simp add: float64_rounding_def)

lemma backoff_0: "backoff 0 = 10 * millisecond"
  by (simp add: backoff_def)

lemma backoff_Suc: "backoff (Suc n) = next_delay (backoff n)"
  by (simp add: backoff_def)

lemma backoff_bounds: "10 * millisecond \<le> backoff n \<and> backoff n \<le> second"
proof (induction n)
  case 0
  show ?case by (simp add: backoff_0 millisecond_def second_def)
next
  case (Suc n)
  have "backoff n \<le> next_delay (backoff n)"
    using Suc by (intro next_delay_ge) (simp_all add: millisecond_def)
  with Suc show ?case by (simp add: backoff_Suc next_delay_le_second)
qed

lemma float_step_backoff:
  assumes "float64_rounding fl"
  shows "float_step fl (backoff n) = backoff (Suc n)"
  using float_step_next_delay [OF assms, of "backoff n"] backoff_bounds [of n]
  by (simp add: backoff_Suc millisecond_def)

lemma backoff_mono_Suc: "backoff n \<le> backoff (Suc n)"
  using backoff_bounds [of n] by (simp add: backoff_Suc next_delay_ge millisecond_def)

lemma backoff_strict: "backoff n < second \<Longrightarrow> backoff n < backoff (Suc n)"
  using backoff_bounds [of n] by (simp add: backoff_Suc next_delay_gt millisecond_def)

lemma backoff_mono: "m \<le> n \<Longrightarrow> backoff m \<le> backoff n"
  by (rule lift_Suc_mono_le [of backoff]) (rule backoff_mono_Suc)

lemma backoff_26: "backoff 26 = second"
  by (simp add: backoff_def eval_nat_numeral next_delay_def second_def millisecond_def)

lemma backoff_cap: "26 \<le> n \<Longrightarrow> backoff n = second"
  using backoff_mono [of 26 n] backoff_bounds [of n] by (simp add: backoff_26)

section \<open>The retry loops\<close>

lemma emit_sel [simp]:
  "dial_ok (emit ev w) = dial_ok w" "write_ok (emit ev w) = write_ok w"
  "dials (emit ev w) = dials w" "writes (emit ev w) = writes w" "now (emit ev w) = now w"
  "trace (emit ev w) = trace w @ [ev]"
  by (simp_all add: emit_def)

lemma sleep_sel [simp]:
  "dial_ok (sleep d w) = dial_ok w" "write_ok (sleep d w) = write_ok w"
  "dials (sleep d w) = dials w" "writes (sleep d w) = writes w" "now (sleep d w) = now w + d"
  "trace (sleep d w) = trace w @ [Sleep d]"
  by (simp_all add: sleep_def emit_def)

lemma dial_retries_conn [simp]: "dial_retries (h\<lparr>conn := x\<rparr>) d k = dial_retries h d k"
  by (induction k arbitrary: d) simp_all

lemma write_retries_conn [simp]:
  "write_retries (h\<lparr>conn := x\<rparr>) data c n d k = write_retries h data c n d k"
  by (induction k arbitrary: c n d) simp_all

lemma reconnect_loop_retries:
  assumes "\<forall>j<k. \<not> dial_ok w (dials w + j)" and "dial_ok w (dials w + k)"
  shows "reconnect_loop h d w =
           Some (h\<lparr>conn := Some (dials w + k)\<rparr>,
                 w\<lparr>dials := dials w + Suc k, now := now w + waited d k,
                   trace := trace w @ dial_retries h d k @
                            [Dial (protocol h) (address h) True]\<rparr>)"
  using assms
proof (induction k arbitrary: d w)
  case 0
  then show ?case
    by (subst reconnect_loop.simps) (simp add: emit_def)
next
  case (Suc k)
  let ?w = "sleep d (emit (Errorf ''unable to connect'')
              (emit (Dial (protocol h) (address h) False) (w\<lparr>dials := dials w + 1\<rparr>)))"
  from Suc.prems have f: "\<not> dial_ok w (dials w)" by force
  have d: "dials ?w = Suc (dials w)" "dial_ok ?w = dial_ok w" "now ?w = now w + d"
    "trace ?w = trace w @ [Dial (protocol h) (address h) False, Errorf ''unable to connect'', Sleep d]"
    by (simp_all add: sleep_def emit_def)
  have "\<forall>j<k. \<not> dial_ok ?w (dials ?w + j)" and "dial_ok ?w (dials ?w + k)"
    using Suc.prems unfolding d by auto
  from Suc.IH [OF this, of "next_delay d"]
  have "reconnect_loop h (next_delay d) ?w =
          Some (h\<lparr>conn := Some (dials w + Suc k)\<rparr>,
                ?w\<lparr>dials := dials w + Suc (Suc k), now := now w + waited d (Suc k),
                   trace := trace w @ dial_retries h d (Suc k) @
                            [Dial (protocol h) (address h) True]\<rparr>)"
    unfolding d by (simp add: add.assoc)
  moreover have "?w\<lparr>dials := dials w + Suc (Suc k), now := now w + waited d (Suc k),
                   trace := trace w @ dial_retries h d (Suc k) @
                            [Dial (protocol h) (address h) True]\<rparr>
        = w\<lparr>dials := dials w + Suc (Suc k), now := now w + waited d (Suc k),
                   trace := trace w @ dial_retries h d (Suc k) @
                            [Dial (protocol h) (address h) True]\<rparr>"
    by (simp add: sleep_def emit_def)
  ultimately show ?case
    using f by (subst reconnect_loop.simps) (simp add: Let_def)
qed

lemma reconnect_loop_Some_dial:
  assumes "reconnect_loop h d w = Some r"
  shows "\<exists>n\<ge>dials w. dial_ok w n"
  using assms
proof (induction rule: reconnect_loop_induct)
  case (step rl h delay w r)
  show ?case
  proof (cases "dial_ok w (dials w)")
    case True
    then show ?thesis by auto
  next
    case False
    with step(2) have "rl h (next_delay delay)
        (sleep delay (emit (Errorf ''unable to connect'')
           (emit (Dial (protocol h) (address h) False) (w\<lparr>dials := dials w + 1\<rparr>)))) = Some r"
      by (simp add: Let_def)
    from step(1) [OF this] obtain n where "Suc (dials w) \<le> n" "dial_ok w n"
      by (auto simp: sleep_def emit_def)
    then show ?thesis by (intro exI [of _ n]) simp
  qed
qed

lemma reconnect_never:
  assumes "\<forall>n\<ge>dials w. \<not> dial_ok w n"
  shows "reconnect h w = None"
proof (cases "reconnect h w")
  case None
  then show ?thesis .
next
  case (Some r)
  then have "\<exists>n\<ge>dials w. dial_ok w n"
    unfolding reconnect_def by (rule reconnect_loop_Some_dial)
  with assms show ?thesis by blast
qed

lemma reconnect_loop_world:
  assumes "reconnect_loop h d w = Some r"
  shows "writes (snd r) = writes w \<and> write_ok (snd r) = write_ok w
       \<and> dial_ok (snd r) = dial_ok w \<and> conn (fst r) \<noteq> None"
  using assms
proof (induction rule: reconnect_loop_induct)
  case (step rl h delay w r)
  show ?case
  proof (cases "dial_ok w (dials w)")
    case True
    with step(2) show ?thesis by (auto simp: Let_def emit_def)
  next
    case False
    with step(2) have "rl h (next_delay delay)
        (sleep delay (emit (Errorf ''unable to connect'')
           (emit (Dial (protocol h) (address h) False) (w\<lparr>dials := dials w + 1\<rparr>)))) = Some r"
      by (simp add: Let_def)
    from step(1) [OF this] show ?thesis
      by (simp add: sleep_def emit_def)
  qed
qed


lemma performSend_loop_retries:
  assumes "conn h = Some c"
    and "\<forall>j<length ks. \<not> write_ok w (writes w + j)" and "write_ok w (writes w + length ks)"
    and "dials_as (dial_ok w) (dials w) ks"
  shows "performSend_loop h data d w =
           Some (Returned (), h\<lparr>conn := Some (final_conn c (dials w) ks)\<rparr>,
                 w\<lparr>dials := dials w + sum_list (map Suc ks),
                   writes := writes w + Suc (length ks),
                   now := now w + write_waited d ks,
                   trace := trace w @ write_retries h data c (dials w) d ks @
                            [Write (final_conn c (dials w) ks) data True]\<rparr>)"
  using assms
proof (induction ks arbitrary: h c d w)
  case Nil
  then show ?case
    by (subst performSend_loop.simps) (simp add: emit_def)
next
  case (Cons k ks)
  define w1 where "w1 = sleep d (emit (Errorf ''unable to write'')
               (emit (Write c data False) (w\<lparr>writes := writes w + 1\<rparr>)))"
  define w2 where "w2 = w1\<lparr>dials := dials w1 + Suc k,
                 now := now w1 + waited (10 * millisecond) k,
                 trace := trace w1 @ dial_retries h (10 * millisecond) k @
                          [Dial (protocol h) (address h) True]\<rparr>"
  define h2 where "h2 = h\<lparr>conn := Some (dials w + k)\<rparr>"
  from Cons.prems have f: "\<not> write_ok w (writes w)"
    and dk: "\<forall>j<k. \<not> dial_ok w (dials w + j)" "dial_ok w (dials w + k)"
    and rest: "dials_as (dial_ok w) (dials w + Suc k) ks"
    by force+
  have w1: "dials w1 = dials w" "dial_ok w1 = dial_ok w"
    by (simp_all add: w1_def)
  have rc: "reconnect h w1 = Some (h2, w2)"
    unfolding reconnect_def w2_def h2_def
    using reconnect_loop_retries [of k w1 h "10 * millisecond"] dk by (simp add: w1)
  have w2: "dials w2 = dials w + Suc k" "dial_ok w2 = dial_ok w" "write_ok w2 = write_ok w"
    "writes w2 = Suc (writes w)" "now w2 = now w + d + waited (10 * millisecond) k"
    "trace w2 = trace w @ [Write c data False, Errorf ''unable to write'', Sleep d] @
                 dial_retries h (10 * millisecond) k @ [Dial (protocol h) (address h) True]"
    by (simp_all add: w2_def w1_def)
  have "conn h2 = Some (dials w + k)" by (simp add: h2_def)
  moreover have "\<forall>j<length ks. \<not> write_ok w2 (writes w2 + j)"
    "write_ok w2 (writes w2 + length ks)"
    using Cons.prems(2,3) unfolding w2 by auto
  moreover have "dials_as (dial_ok w2) (dials w2) ks"
    using rest unfolding w2 .
  ultimately have "performSend_loop h2 data (next_delay d) w2 =
      Some (Returned (), h2\<lparr>conn := Some (final_conn (dials w + k) (dials w2) ks)\<rparr>,
            w2\<lparr>dials := dials w2 + sum_list (map Suc ks),
                writes := writes w2 + Suc (length ks),
                now := now w2 + write_waited (next_delay d) ks,
                trace := trace w2 @
                         write_retries h2 data (dials w + k) (dials w2) (next_delay d) ks @
                         [Write (final_conn (dials w + k) (dials w2) ks) data True]\<rparr>)"
    by (rule Cons.IH)
  moreover have "w2\<lparr>dials := dials w2 + sum_list (map Suc ks),
                writes := writes w2 + Suc (length ks),
                now := now w2 + write_waited (next_delay d) ks,
                trace := trace w2 @
                         write_retries h2 data (dials w + k) (dials w2) (next_delay d) ks @
                         [Write (final_conn (dials w + k) (dials w2) ks) data True]\<rparr>
     = w\<lparr>dials := dials w + sum_list (map Suc (k # ks)),
         writes := writes w + Suc (length (k # ks)),
         now := now w + write_waited d (k # ks),
         trace := trace w @ write_retries h data c (dials w) d (k # ks) @
                  [Write (final_conn c (dials w) (k # ks)) data True]\<rparr>"
    unfolding w2 by (simp add: w2_def w1_def h2_def sleep_def emit_def)
  moreover have "h2\<lparr>conn := Some (final_conn (dials w + k) (dials w2) ks)\<rparr>
     = h\<lparr>conn := Some (final_conn c (dials w) (k # ks))\<rparr>"
    by (simp add: h2_def w2)
  ultimately have "performSend_loop h2 data (next_delay d) w2 =
      Some (Returned (), h\<lparr>conn := Some (final_conn c (dials w) (k # ks))\<rparr>,
            w\<lparr>dials := dials w + sum_list (map Suc (k # ks)),
              writes := writes w + Suc (length (k # ks)),
              now := now w + write_waited d (k # ks),
              trace := trace w @ write_retries h data c (dials w) d (k # ks) @
                       [Write (final_conn c (dials w) (k # ks)) data True]\<rparr>)"
    by simp
  then show ?case
    using f Cons.prems(1) rc
    by (subst performSend_loop.simps) (simp add: Let_def w1_def)
qed

lemma performSend_loop_Some_write:
  assumes "performSend_loop h data d w = Some r"
  shows "conn h = None \<or> (\<exists>n\<ge>writes w. write_ok w n)"
  using assms
proof (induction rule: performSend_loop_induct)
  case (step pl h data delay w r)
  show ?case
  proof (cases "conn h")
    case None
    then show ?thesis by simp
  next
    case (Some c)
    show ?thesis
    proof (cases "write_ok w (writes w)")
      case True
      then show ?thesis by auto
    next
      case False
      with step(2) Some obtain h1 w1 where
        rc: "reconnect h (sleep delay (emit (Errorf ''unable to write'')
               (emit (Write c data False) (w\<lparr>writes := writes w + 1\<rparr>)))) = Some (h1, w1)"
        and pl: "pl h1 data (next_delay delay) w1 = Some r"
        by (auto simp: Let_def bind_eq_Some_conv)
      from reconnect_loop_world [OF rc [unfolded reconnect_def]]
      have w1: "writes w1 = Suc (writes w)" "write_ok w1 = write_ok w" "conn h1 \<noteq> None"
        by simp_all
      from step(1) [OF pl] w1 obtain n where "Suc (writes w) \<le> n" "write_ok w n" by auto
      then show ?thesis by (intro disjI2 exI [of _ n]) simp
    qed
  qed
qed

lemma performSend_never:
  assumes "conn h \<noteq> None" and "\<forall>n\<ge>writes w. \<not> write_ok w n"
  shows "performSend h data w = None"
proof (cases "performSend h data w")
  case None
  then show ?thesis .
next
  case (Some r)
  with assms(1) obtain w1 where "performSend_loop h data (10 * millisecond) w1 = Some r"
    and "writes w1 = writes w" "write_ok w1 = write_ok w"
    by (auto simp: performSend_def split: if_splits)
  with performSend_loop_Some_write [of h data _ w1 r] assms show ?thesis by auto
qed

lemma sleeps_append [simp]: "sleeps (a @ b) = sleeps a @ sleeps b"
  by (simp add: sleeps_def)

lemma sleeps_Cons [simp]:
  "sleeps (Sleep d # tr) = d # sleeps tr"
  "sleeps (Write c data ok # tr) = sleeps tr"
  "sleeps (Dial p a ok # tr) = sleeps tr"
  "sleeps (Errorf m # tr) = sleeps tr"
  "sleeps (SetWriteDeadline c t # tr) = sleeps tr"
  "sleeps [] = []"
  by (simp_all add: sleeps_def)

lemma written_append [simp]: "written (a @ b) = written a @ written b"
  by (simp add: written_def)

lemma written_Cons [simp]:
  "written (Write c data ok # tr) = (if ok then data # written tr else written tr)"
  "written (Sleep d # tr) = written tr"
  "written (Dial p a ok # tr) = written tr"
  "written (Errorf m # tr) = written tr"
  "written (SetWriteDeadline c t # tr) = written tr"
  "written (Lock # tr) = written tr"
  "written (Unlock # tr) = written tr"
  "written [] = []"
  by (simp_all add: written_def)

lemma written_dial_retries [simp]: "written (dial_retries h d k) = []"
  by (induction k arbitrary: d) simp_all

lemma written_write_retries [simp]: "written (write_retries h data c n d ks) = []"
  by (induction ks arbitrary: c n d) simp_all

lemma sleeps_dial_retries_from:
  "sleeps (dial_retries h (backoff i) k) = map backoff [i..<i + k]"
proof (induction k arbitrary: i)
  case 0
  show ?case by simp
next
  case (Suc k)
  have "sleeps (dial_retries h (backoff (Suc i)) k) = map backoff [Suc i..<Suc i + k]"
    by (rule Suc.IH)
  then show ?case
    by (simp add: backoff_Suc upt_conv_Cons del: upt_Suc)
qed

lemma sleeps_dial_retries:
  "sleeps (dial_retries h (10 * millisecond) k) = map backoff [0..<k]"
  using sleeps_dial_retries_from [of h 0 k] by (simp add: backoff_0)

lemma sleeps_write_retries_from:
  "sleeps (write_retries h data c n (backoff i) ks) =
     concat (map (\<lambda>j. backoff (i + j) # map backoff [0..<ks ! j]) [0..<length ks])"
proof (induction ks arbitrary: c n i)
  case Nil
  show ?case by simp
next
  case (Cons k ks)
  have "sleeps (write_retries h data (n + k) (n + Suc k) (backoff (Suc i)) ks) =
     concat (map (\<lambda>j. backoff (Suc i + j) # map backoff [0..<ks ! j]) [0..<length ks])"
    by (rule Cons.IH)
  moreover have "[0..<length (k # ks)] = 0 # map Suc [0..<length ks]"
    by (simp add: upt_conv_Cons map_Suc_upt del: upt_Suc)
  ultimately show ?case
    by (simp add: backoff_Suc sleeps_dial_retries comp_def del: upt_Suc)
qed

lemma sleeps_write_retries:
  "sleeps (write_retries h data c n (10 * millisecond) ks) =
     concat (map (\<lambda>j. backoff j # map backoff [0..<ks ! j]) [0..<length ks])"
  using sleeps_write_retries_from [of h data c n 0 ks] by (simp add: backoff_0)

lemma reconnect_retries:
  assumes "\<forall>j<k. \<not> dial_ok w (dials w + j)" and "dial_ok w (dials w + k)"
  shows "reconnect h w =
           Some (h\<lparr>conn := Some (dials w + k)\<rparr>,
                 w\<lparr>dials := dials w + Suc k, now := now w + waited (10 * millisecond) k,
                   trace := trace w @ dial_retries h (10 * millisecond) k @
                            [Dial (protocol h) (address h) True]\<rparr>)"
  unfolding reconnect_def using assms by (rule reconnect_loop_retries)

lemma performSend_retries:
  assumes "conn h = Some c"
    and "\<forall>j<length ks. \<not> write_ok w (writes w + j)" and "write_ok w (writes w + length ks)"
    and "dials_as (dial_ok w) (dials w) ks"
  shows "performSend h data w =
           Some (Returned (), h\<lparr>conn := Some (final_conn c (dials w) ks)\<rparr>,
                 w\<lparr>dials := dials w + sum_list (map Suc ks),
                   writes := writes w + Suc (length ks),
                   now := now w + write_waited (10 * millisecond) ks,
                   trace := trace w @
                     (if 0 < Timeout h then [SetWriteDeadline c (now w + Timeout h)] else []) @
                     write_retries h data c (dials w) (10 * millisecond) ks @
                     [Write (final_conn c (dials w) ks) data True]\<rparr>)"
proof (cases "0 < Timeout h")
  case True
  let ?w = "emit (SetWriteDeadline c (now w + Timeout h)) w"
  have "performSend_loop h data (10 * millisecond) ?w =
           Some (Returned (), h\<lparr>conn := Some (final_conn c (dials ?w) ks)\<rparr>,
                 ?w\<lparr>dials := dials ?w + sum_list (map Suc ks),
                   writes := writes ?w + Suc (length ks),
                   now := now ?w + write_waited (10 * millisecond) ks,
                   trace := trace ?w @ write_retries h data c (dials ?w) (10 * millisecond) ks @
                            [Write (final_conn c (dials ?w) ks) data True]\<rparr>)"
    using assms by (intro performSend_loop_retries) simp_all
  with True assms(1) show ?thesis
    by (simp add: performSend_def emit_def)
next
  case False
  with performSend_loop_retries [OF assms, of data "10 * millisecond"] show ?thesis
    by (simp add: performSend_def)
qed

text \<open>
  Claim C6. The delays of both retry loops are \<open>backoff 0, backoff 1, \<dots>\<close>: the first
  is ten milliseconds, each next one is the previous one times 6/5, cut to whole
  nanoseconds and capped at one second, which is the step of the source under every
  rounding to \<open>float64\<close>; so the sequence never decreases, grows while below one second
  and never exceeds it. A call of \<open>reconnect\<close> whose first \<open>k\<close> dials
  fail sleeps \<open>backoff 0\<close> to \<open>backoff (k - 1)\<close> and returns with the next dial, for every
  \<open>k\<close>; it never returns when no dial succeeds. A call of \<open>performSend\<close> whose first
  \<open>length ks\<close> writes fail sleeps \<open>backoff j\<close> after the \<open>j\<close>-th failure, followed by the
  sleeps of the reconnect, and returns with the next write; it never returns when no
  write succeeds.
\<close>

theorem retry_backoff:
  "backoff 0 = 10 * millisecond
   \<and> backoff (Suc n) = min (backoff n * 6 div 5) second
   \<and> backoff n \<le> backoff (Suc n)
   \<and> backoff n \<le> second
   \<and> (backoff n < second \<longrightarrow> backoff n < backoff (Suc n))
   \<and> (float64_rounding fl \<longrightarrow> backoff (Suc n) = float_step fl (backoff n))
   \<and> ((\<forall>j<k. \<not> dial_ok w (dials w + j)) \<and> dial_ok w (dials w + k) \<longrightarrow>
        (\<exists>w'. reconnect h w = Some (h\<lparr>conn := Some (dials w + k)\<rparr>, w')
             \<and> dials w' = dials w + Suc k
             \<and> sleeps (trace w') = sleeps (trace w) @ map backoff [0..<k]))
   \<and> ((\<forall>i\<ge>dials w. \<not> dial_ok w i) \<longrightarrow> reconnect h w = None)
   \<and> (conn h = Some c \<and> (\<forall>j<length ks. \<not> write_ok w (writes w + j))
        \<and> write_ok w (writes w + length ks) \<and> dials_as (dial_ok w) (dials w) ks \<longrightarrow>
        (\<exists>h' w'. performSend h data w = Some (Returned (), h', w')
             \<and> writes w' = writes w + Suc (length ks)
             \<and> sleeps (trace w') = sleeps (trace w) @
                 concat (map (\<lambda>j. backoff j # map backoff [0..<ks ! j]) [0..<length ks])))
   \<and> (conn h \<noteq> None \<and> (\<forall>i\<ge>writes w. \<not> write_ok w i) \<longrightarrow> performSend h data w = None)"
proof (intro conjI impI)
  show "backoff 0 = 10 * millisecond" by (rule backoff_0)
  show "backoff (Suc n) = min (backoff n * 6 div 5) second"
    by (simp add: backoff_Suc next_delay_min)
  show "backoff n \<le> backoff (Suc n)" by (rule backoff_mono_Suc)
  show "backoff n \<le> second" using backoff_bounds [of n] by simp
  show "backoff n < backoff (Suc n)" if "backoff n < second"
    using that by (rule backoff_strict)
  show "backoff (Suc n) = float_step fl (backoff n)" if "float64_rounding fl"
    using that by (simp add: float_step_backoff)
  show "\<exists>w'. reconnect h w = Some (h\<lparr>conn := Some (dials w + k)\<rparr>, w')
             \<and> dials w' = dials w + Suc k
             \<and> sleeps (trace w') = sleeps (trace w) @ map backoff [0..<k]"
    if "(\<forall>j<k. \<not> dial_ok w (dials w + j)) \<and> dial_ok w (dials w + k)"
    using reconnect_retries [of k w h] that by (simp add: sleeps_dial_retries)
  show "reconnect h w = None" if "\<forall>i\<ge>dials w. \<not> dial_ok w i"
    using that by (rule reconnect_never)
  show "\<exists>h' w'. performSend h data w = Some (Returned (), h', w')
             \<and> writes w' = writes w + Suc (length ks)
             \<and> sleeps (trace w') = sleeps (trace w) @
                 concat (map (\<lambda>j. backoff j # map backoff [0..<ks ! j]) [0..<length ks])"
    if "conn h = Some c \<and> (\<forall>j<length ks. \<not> write_ok w (writes w + j))
        \<and> write_ok w (writes w + length ks) \<and> dials_as (dial_ok w) (dials w) ks"
    using performSend_retries [of h c ks w data] that by (simp add: sleeps_write_retries)
  show "performSend h data w = None" if "conn h \<noteq> None \<and> (\<forall>i\<ge>writes w. \<not> write_ok w i)"
    using that performSend_never by blast
qed

theorem retry_backoff_witness:
  "backoff 0 < second \<and> backoff 0 < backoff 1 \<and> backoff 1 = 12 * millisecond
   \<and> float64_rounding (\<lambda>x. x) \<and> float_step (\<lambda>x. x) (backoff 0) = 12 * millisecond
   \<and> \<not> dial_ok flaky_world 0 \<and> dial_ok flaky_world 1
   \<and> map_option (\<lambda>(h, w). (conn h, dials w, sleeps (trace w)))
        (reconnect test_hook flaky_world) = Some (Some 1, 2, [10000000])
   \<and> reconnect test_hook dead_world = None
   \<and> conn test_hook = Some 0 \<and> \<not> write_ok flaky_world 0 \<and> write_ok flaky_world 1
   \<and> map_option (\<lambda>(r, h, w). (r, writes w, sleeps (trace w)))
        (performSend test_hook ''abc'' flaky_world) =
      Some (Returned (), 2, [10000000, 10000000])
   \<and> performSend test_hook ''abc'' dead_world = None"
proof -
  note f = retry_backoff [where n = 0 and k = 1 and w = flaky_world and h = test_hook
      and c = 0 and ks = "[1]" and data = "''abc''" and fl = "\<lambda>x. x"]
  note d = retry_backoff [where n = 0 and k = 1 and w = dead_world and h = test_hook
      and c = 0 and ks = "[1]" and data = "''abc''" and fl = "\<lambda>x. x"]
  have b: "backoff 0 < second" by (simp add: backoff_0 millisecond_def second_def)
  have b1: "backoff 1 = 12 * millisecond"
    using f b by (simp add: millisecond_def second_def)
  have fw: "\<not> dial_ok flaky_world 0" "dial_ok flaky_world 1"
    "\<not> write_ok flaky_world 0" "write_ok flaky_world 1"
    "dials flaky_world = 0" "writes flaky_world = 0" "trace flaky_world = []"
    by (simp_all add: flaky_world_def)
  have c: "conn test_hook = Some 0" by (simp add: test_hook_def)
  have "\<exists>w'. reconnect test_hook flaky_world = Some (test_hook\<lparr>conn := Some 1\<rparr>, w')
          \<and> dials w' = 2 \<and> sleeps (trace w') = [backoff 0]"
    using f fw by (auto simp: numeral_2_eq_2)
  then have r: "map_option (\<lambda>(h, w). (conn h, dials w, sleeps (trace w)))
        (reconnect test_hook flaky_world) = Some (Some 1, 2, [10000000])"
    by (auto simp: backoff_0 millisecond_def)
  have "\<exists>h' w'. performSend test_hook ''abc'' flaky_world = Some (Returned (), h', w')
          \<and> writes w' = 2 \<and> sleeps (trace w') = [backoff 0, backoff 0]"
    using f fw c by (auto simp: numeral_2_eq_2)
  then have p: "map_option (\<lambda>(r, h, w). (r, writes w, sleeps (trace w)))
        (performSend test_hook ''abc'' flaky_world) =
      Some (Returned (), 2, [10000000, 10000000])"
    by (auto simp: backoff_0 millisecond_def)
  have dd: "reconnect test_hook dead_world = None"
    "performSend test_hook ''abc'' dead_world = None"
    using d c by (simp_all add: dead_world_def)
  have "backoff 0 < second \<longrightarrow> backoff 0 < backoff (Suc 0)" using f by blast
  with b have b2: "backoff 0 < backoff 1" by simp
  have "float64_rounding (\<lambda>x. x) \<longrightarrow> backoff (Suc 0) = float_step (\<lambda>x. x) (backoff 0)"
    using f by blast
  with b1 have fs: "float_step (\<lambda>x. x) (backoff 0) = 12 * millisecond"
    by (simp add: float64_rounding_exact)
  from b b2 b1 float64_rounding_exact fs fw(1,2) r dd(1) c fw(3,4) p dd(2)
  show ?thesis by (intro conjI)
qed

text \<open>
  Claim C7. When the first write of \<open>performSend\<close> fails and the second succeeds, the
  call returns; between the two writes it logs, sleeps ten milliseconds and reconnects,
  and the only write that succeeds carries the whole data, so the data goes out once.
\<close>

theorem performSend_one_failed_write:
  assumes "conn h = Some c"
    and "\<not> write_ok w (writes w)" and "write_ok w (Suc (writes w))"
    and "\<forall>j<k. \<not> dial_ok w (dials w + j)" and "dial_ok w (dials w + k)"
  shows "\<exists>w'. performSend h data w = Some (Returned (), h\<lparr>conn := Some (dials w + k)\<rparr>, w')
           \<and> trace w' = trace w @
               (if 0 < Timeout h then [SetWriteDeadline c (now w + Timeout h)] else []) @
               [Write c data False, Errorf ''unable to write'', Sleep (10 * millisecond)] @
               dial_retries h (10 * millisecond) k @
               [Dial (protocol h) (address h) True, Write (dials w + k) data True]
           \<and> written (trace w') = written (trace w) @ [data]
           \<and> writes w' = writes w + 2"
  using performSend_retries [of h c "[k]" w data] assms by simp

theorem performSend_one_failed_write_witness:
  "conn test_hook = Some 0
   \<and> \<not> write_ok flaky_world 0 \<and> write_ok flaky_world 1
   \<and> \<not> dial_ok flaky_world 0 \<and> dial_ok flaky_world 1
   \<and> map_option (\<lambda>(r, h, w). (r, conn h, trace w, written (trace w)))
        (performSend test_hook ''abc'' flaky_world) =
      Some (Returned (), Some 1,
            [Write 0 ''abc'' False, Errorf ''unable to write'', Sleep 10000000,
             Dial [] [] False, Errorf ''unable to connect'', Sleep 10000000,
             Dial [] [] True, Write 1 ''abc'' True],
            [''abc''])"
proof -
  have "conn test_hook = Some 0" by (simp add: test_hook_def)
  moreover have "\<not> write_ok flaky_world (writes flaky_world)"
    "write_ok flaky_world (Suc (writes flaky_world))"
    "\<forall>j<1. \<not> dial_ok flaky_world (dials flaky_world + j)"
    "dial_ok flaky_world (dials flaky_world + 1)"
    by (simp_all add: flaky_world_def)
  ultimately obtain w' where
    "performSend test_hook ''abc'' flaky_world
       = Some (Returned (), test_hook\<lparr>conn := Some (dials flaky_world + 1)\<rparr>, w')"
    "trace w' = trace flaky_world @
               (if 0 < Timeout test_hook
                then [SetWriteDeadline 0 (now flaky_world + Timeout test_hook)] else []) @
               [Write 0 ''abc'' False, Errorf ''unable to write'', Sleep (10 * millisecond)] @
               dial_retries test_hook (10 * millisecond) 1 @
               [Dial (protocol test_hook) (address test_hook) True,
                Write (dials flaky_world + 1) ''abc'' True]"
    "written (trace w') = written (trace flaky_world) @ [''abc'']"
    using performSend_one_failed_write [of test_hook 0 flaky_world 1 "''abc''"] by blast
  then show ?thesis
    by (simp add: test_hook_def flaky_world_def millisecond_def)
qed

section \<open>Settings that are not read\<close>

lemma reconnect_loop_transfer:
  assumes p: "\<And>x. protocol (U x) = protocol x" and a: "\<And>x. address (U x) = address x"
    and c: "\<And>x c. U (x\<lparr>conn := c\<rparr>) = (U x)\<lparr>conn := c\<rparr>"
    and "reconnect_loop h d w = Some r"
  shows "reconnect_loop (U h) d w = Some (U (fst r), snd r)"
  using assms(4)
proof (induction rule: reconnect_loop_induct)
  case (step rl h delay w r)
  show ?case
  proof (cases "dial_ok w (dials w)")
    case True
    with step(2) show ?thesis
      by (subst reconnect_loop.simps) (auto simp: Let_def p a c)
  next
    case False
    with step(2) have "rl h (next_delay delay)
        (sleep delay (emit (Errorf ''unable to connect'')
           (emit (Dial (protocol h) (address h) False) (w\<lparr>dials := dials w + 1\<rparr>)))) = Some r"
      by (simp add: Let_def)
    from step(1) [OF this] False show ?thesis
      by (subst reconnect_loop.simps) (simp add: Let_def p a)
  qed
qed

lemma performSend_loop_transfer:
  assumes p: "\<And>x. protocol (U x) = protocol x" and a: "\<And>x. address (U x) = address x"
    and c: "\<And>x c. U (x\<lparr>conn := c\<rparr>) = (U x)\<lparr>conn := c\<rparr>"
    and n: "\<And>x. conn (U x) = conn x"
    and "performSend_loop h data d w = Some r"
  shows "performSend_loop (U h) data d w = Some (fst r, U (fst (snd r)), snd (snd r))"
  using assms(5)
proof (induction rule: performSend_loop_induct)
  case (step pl h data delay w r)
  show ?case
  proof (cases "conn h")
    case None
    with step(2) show ?thesis
      by (subst performSend_loop.simps) (auto simp: n)
  next
    case (Some c0)
    show ?thesis
    proof (cases "write_ok w (writes w)")
      case True
      with step(2) Some show ?thesis
        by (subst performSend_loop.simps) (auto simp: Let_def n)
    next
      case False
      with step(2) Some obtain h1 w1 where
        rc: "reconnect h (sleep delay (emit (Errorf ''unable to write'')
               (emit (Write c0 data False) (w\<lparr>writes := writes w + 1\<rparr>)))) = Some (h1, w1)"
        and pl: "pl h1 data (next_delay delay) w1 = Some r"
        by (auto simp: Let_def bind_eq_Some_conv)
      from reconnect_loop_transfer [of U, OF p a c rc [unfolded reconnect_def]]
      have rc': "reconnect (U h) (sleep delay (emit (Errorf ''unable to write'')
               (emit (Write c0 data False) (w\<lparr>writes := writes w + 1\<rparr>)))) = Some (U h1, w1)"
        by (simp add: reconnect_def)
      from step(1) [OF pl] rc' False Some show ?thesis
        by (subst performSend_loop.simps) (simp add: Let_def n)
    qed
  qed
qed

lemma performSend_transfer:
  assumes p: "\<And>x. protocol (U x) = protocol x" and a: "\<And>x. address (U x) = address x"
    and c: "\<And>x c. U (x\<lparr>conn := c\<rparr>) = (U x)\<lparr>conn := c\<rparr>"
    and n: "\<And>x. conn (U x) = conn x" and t: "\<And>x. Timeout (U x) = Timeout x"
    and "performSend h data w = Some r"
  shows "performSend (U h) data w = Some (fst r, U (fst (snd r)), snd (snd r))"
proof (cases "0 < Timeout h \<and> conn h = None")
  case True
  with assms(6) show ?thesis by (auto simp: performSend_def n t)
next
  case False
  show ?thesis
  proof (cases "0 < Timeout h")
    case True
    with False obtain c0 where c0: "conn h = Some c0" by auto
    with True assms(6) have "performSend_loop h data (10 * millisecond)
               (emit (SetWriteDeadline c0 (now w + Timeout h)) w) = Some r"
      by (simp add: performSend_def)
    from performSend_loop_transfer [of U, OF p a c n this] True c0 show ?thesis
      by (simp add: performSend_def n t)
  next
    case F: False
    with assms(6) have "performSend_loop h data (10 * millisecond) w = Some r"
      by (simp add: performSend_def)
    from performSend_loop_transfer [of U, OF p a c n this] F show ?thesis
      by (simp add: performSend_def n t)
  qed
qed

text \<open>
  Claim C9. The fields \<open>MaxSendRetries\<close> and \<open>MaxReconnectRetries\<close> are without effect:
  on a hook that differs from \<open>h\<close> in these two fields only, \<open>reconnect\<close> and
  \<open>performSend\<close> return exactly when they return on \<open>h\<close>, with the same outcome and the
  same environment, hence the same dials, writes and sleeps in the same order, and with
  the hook they return on \<open>h\<close> up to the two fields.
\<close>

theorem retry_limits_unused:
  "reconnect (h\<lparr>MaxSendRetries := a, MaxReconnectRetries := b\<rparr>) w =
     map_option (\<lambda>(h', w'). (h'\<lparr>MaxSendRetries := a, MaxReconnectRetries := b\<rparr>, w'))
       (reconnect h w)
   \<and> performSend (h\<lparr>MaxSendRetries := a, MaxReconnectRetries := b\<rparr>) data w =
     map_option (\<lambda>(r, h', w'). (r, h'\<lparr>MaxSendRetries := a, MaxReconnectRetries := b\<rparr>, w'))
       (performSend h data w)"
proof
  let ?U = "\<lambda>x :: 'a Hook. x\<lparr>MaxSendRetries := a, MaxReconnectRetries := b\<rparr>"
  let ?V = "\<lambda>x :: 'a Hook. x\<lparr>MaxSendRetries := MaxSendRetries h,
                                MaxReconnectRetries := MaxReconnectRetries h\<rparr>"
  have V: "?V (?U h) = h" by simp
  show "reconnect (?U h) w = map_option (\<lambda>(h', w'). (?U h', w')) (reconnect h w)"
  proof (cases "reconnect h w")
    case (Some r)
    then have "reconnect_loop h (10 * millisecond) w = Some r" by (simp add: reconnect_def)
    from reconnect_loop_transfer [of ?U, OF _ _ _ this] Some show ?thesis
      by (simp add: reconnect_def case_prod_beta)
  next
    case None
    show ?thesis
    proof (cases "reconnect (?U h) w")
      case N: None
      with None show ?thesis by simp
    next
      case (Some r)
      then have "reconnect_loop (?U h) (10 * millisecond) w = Some r"
        by (simp add: reconnect_def)
      from reconnect_loop_transfer [of ?V, OF _ _ _ this]
      have "reconnect_loop (?V (?U h)) (10 * millisecond) w = Some (?V (fst r), snd r)"
        by simp
      with None show ?thesis unfolding V by (simp add: reconnect_def)
    qed
  qed
  show "performSend (?U h) data w =
          map_option (\<lambda>(r, h', w'). (r, ?U h', w')) (performSend h data w)"
  proof (cases "performSend h data w")
    case (Some r)
    from performSend_transfer [of ?U, OF _ _ _ _ _ this] show ?thesis
      by (simp add: Some case_prod_beta)
  next
    case None
    show ?thesis
    proof (cases "performSend (?U h) data w")
      case N: None
      with None show ?thesis by simp
    next
      case (Some r)
      from performSend_transfer [of ?V, OF _ _ _ _ _ this]
      have "performSend (?V (?U h)) data w = Some (fst r, ?V (fst (snd r)), snd (snd r))"
        by simp
      with None show ?thesis unfolding V by simp
    qed
  qed
qed

section \<open>Flush\<close>

lemma Flush_loop_deadline:
  assumes "expireAt \<le> clock ob (Suc i)"
  shows "Flush_loop ob expireAt i h tr = Some (Some DeadlineExceeded, h, tr)"
  using assms by (subst Flush_loop.simps) simp

lemma Flush_loop_empty:
  assumes "clock ob (Suc i) < expireAt" and "granted ob i" and "queued ob i = 0"
  shows "Flush_loop ob expireAt i h tr =
           Some (None, h\<lparr>sendingLocker := False\<rparr>, tr @ [Lock, Unlock, Len 0])"
  using assms by (subst Flush_loop.simps) (simp add: Let_def)

lemma Flush_loop_next:
  assumes "clock ob (Suc i) < expireAt" and "granted ob i" and "queued ob i \<noteq> 0"
  shows "Flush_loop ob expireAt i h tr =
           Flush_loop ob expireAt (Suc i) (h\<lparr>sendingLocker := False\<rparr>)
             (tr @ [Lock, Unlock, Len (queued ob i), Sleep millisecond])"
  using assms by (subst Flush_loop.simps) (simp add: Let_def)

lemma Flush_loop_blocked:
  assumes "clock ob (Suc i) < expireAt" and "\<not> granted ob i"
  shows "Flush_loop ob expireAt i h tr = None"
  using assms by (subst Flush_loop.simps) simp

lemma Flush_loop_rounds:
  assumes "\<forall>j<k. clock ob (Suc (i + j)) < expireAt \<and> granted ob (i + j) \<and> queued ob (i + j) \<noteq> 0"
  shows "Flush_loop ob expireAt i h tr =
           Flush_loop ob expireAt (i + k) (case k of 0 \<Rightarrow> h | Suc m \<Rightarrow> h\<lparr>sendingLocker := False\<rparr>)
             (tr @ polls ob i k)"
  using assms
proof (induction k arbitrary: i h tr)
  case 0
  show ?case by simp
next
  case (Suc k)
  from Suc.prems have 0: "clock ob (Suc i) < expireAt" "granted ob i" "queued ob i \<noteq> 0"
    by force+
  have "\<forall>j<k. clock ob (Suc (Suc i + j)) < expireAt \<and> granted ob (Suc i + j)
      \<and> queued ob (Suc i + j) \<noteq> 0"
  proof (intro allI impI)
    fix j assume "j < k"
    then have "Suc j < Suc k" by simp
    from Suc.prems [rule_format, OF this] show "clock ob (Suc (Suc i + j)) < expireAt
      \<and> granted ob (Suc i + j) \<and> queued ob (Suc i + j) \<noteq> 0" by simp
  qed
  note ih = Suc.IH [OF this, of "h\<lparr>sendingLocker := False\<rparr>"
      "tr @ [Lock, Unlock, Len (queued ob i), Sleep millisecond]"]
  have "(case k of 0 \<Rightarrow> h\<lparr>sendingLocker := False\<rparr>
         | Suc m \<Rightarrow> h\<lparr>sendingLocker := False\<rparr>\<lparr>sendingLocker := False\<rparr>)
        = h\<lparr>sendingLocker := False\<rparr>"
    by (cases k) simp_all
  then have "Flush_loop ob expireAt (Suc i) (h\<lparr>sendingLocker := False\<rparr>)
          (tr @ [Lock, Unlock, Len (queued ob i), Sleep millisecond]) =
        Flush_loop ob expireAt (i + Suc k) (h\<lparr>sendingLocker := False\<rparr>)
          (tr @ polls ob i (Suc k))"
    using ih by simp
  then show ?case
    unfolding Flush_loop_next [OF 0] by simp
qed

lemma Flush_waits_for_lock:
  assumes "\<forall>j<k. clock ob (Suc j) < clock ob 0 + timeout \<and> granted ob j \<and> queued ob j \<noteq> 0"
    and "clock ob (Suc k) < clock ob 0 + timeout" and "\<not> granted ob k"
  shows "Flush ob h timeout = None"
proof -
  have "Flush ob h timeout =
        Flush_loop ob (clock ob 0 + timeout) k
          (case k of 0 \<Rightarrow> h | Suc m \<Rightarrow> h\<lparr>sendingLocker := False\<rparr>) (polls ob 0 k)"
    unfolding Flush_def using Flush_loop_rounds [of k ob 0 "clock ob 0 + timeout" h "[]"] assms(1)
    by simp
  with assms(2,3) show ?thesis by (simp add: Flush_loop_blocked)
qed

lemma Flush_loop_returns:
  assumes "\<forall>n. granted ob n" and "\<forall>n. clock ob n + millisecond \<le> clock ob (Suc n)"
  shows "\<exists>r. Flush_loop ob expireAt i h tr = Some r"
proof (induction "nat (expireAt - clock ob (Suc i))" arbitrary: i h tr rule: less_induct)
  case less
  show ?case
  proof (cases "clock ob (Suc i) < expireAt")
    case False
    then show ?thesis by (simp add: Flush_loop_deadline)
  next
    case True
    note g = assms(1) [rule_format, of i]
    show ?thesis
    proof (cases "queued ob i = 0")
      case Z: True
      from Flush_loop_empty [OF True g Z, of h tr] show ?thesis by blast
    next
      case N: False
      from assms(2) [rule_format, of "Suc i"] True
      have "nat (expireAt - clock ob (Suc (Suc i))) < nat (expireAt - clock ob (Suc i))"
        by (simp add: millisecond_def)
      from less [OF this] show ?thesis
        unfolding Flush_loop_next [OF True g N] .
    qed
  qed
qed

lemma Flush_returns:
  assumes "\<forall>n. granted ob n" and "\<forall>n. clock ob n + millisecond \<le> clock ob (Suc n)"
  shows "\<exists>r. Flush ob h timeout = Some r"
  unfolding Flush_def using assms by (rule Flush_loop_returns)

text \<open>
  The deadline is looked at only where a round starts, and the wait for the lock has no
  limit. So with the lock never released \<open>Flush\<close> does not return, neither nil nor the
  deadline error, although the queue is never seen empty and the clock passes the
  deadline; and a round that started in time and got the lock only after the deadline,
  the queue empty by then, returns nil: no poll saw the queue empty before the timeout
  was over, and yet \<open>Flush\<close> does not return the deadline error.
\<close>

theorem Flush_ignores_deadline_at_lock:
  "clock held 1 < clock held 0 + 10 * millisecond
   \<and> \<not> granted held 0
   \<and> clock held 0 + 10 * millisecond \<le> clock held 10
   \<and> Flush held test_hook (10 * millisecond) = None
   \<and> clock late 1 < clock late 0 + 5 * millisecond
   \<and> granted late 0 \<and> queued late 0 = 0
   \<and> clock late 0 + 5 * millisecond \<le> polled late 0
   \<and> Flush late test_hook (5 * millisecond) = Some (None, test_hook, [Lock, Unlock, Len 0])"
proof -
  have a: "clock held 1 < clock held 0 + 10 * millisecond" "\<not> granted held 0"
    "clock held 0 + 10 * millisecond \<le> clock held 10"
    by (simp_all add: held_def millisecond_def)
  have b: "clock late 1 < clock late 0 + 5 * millisecond" "granted late 0" "queued late 0 = 0"
    "clock late 0 + 5 * millisecond \<le> polled late 0"
    by (simp_all add: late_def millisecond_def)
  have h: "test_hook\<lparr>sendingLocker := False\<rparr> = test_hook" by (simp add: test_hook_def)
  have "Flush held test_hook (10 * millisecond) = None"
    unfolding Flush_def using a(1,2) by (intro Flush_loop_blocked) simp_all
  moreover have "Flush late test_hook (5 * millisecond)
      = Some (None, test_hook, [Lock, Unlock, Len 0])"
    unfolding Flush_def using Flush_loop_empty [of late 0 "clock late 0 + 5 * millisecond"
        test_hook "[]"] b(1,2,3)
    by (simp add: h)
  ultimately show ?thesis using a b by simp
qed

text \<open>
  Claim C5. Let the first \<open>k\<close> rounds of \<open>Flush\<close> start before the deadline, get the
  lock and find the queue non-empty. If round \<open>k\<close> starts before the deadline too, gets
  the lock and finds the queue empty, \<open>Flush\<close> returns nil at once, after the lock and
  unlock of that round. If instead the clock read at the start of round \<open>k\<close> is not
  before the deadline, \<open>Flush\<close> returns the deadline error without another poll. And
  if round \<open>k\<close> starts before the deadline and its \<open>Lock\<close> does not return, \<open>Flush\<close>
  does not return.
\<close>

theorem Flush_result:
  assumes "\<forall>j<k. clock ob (Suc j) < clock ob 0 + timeout \<and> granted ob j \<and> queued ob j \<noteq> 0"
  shows "(clock ob (Suc k) < clock ob 0 + timeout \<and> granted ob k \<and> queued ob k = 0 \<longrightarrow>
            Flush ob h timeout =
              Some (None, h\<lparr>sendingLocker := False\<rparr>, polls ob 0 k @ [Lock, Unlock, Len 0]))
       \<and> (clock ob 0 + timeout \<le> clock ob (Suc k) \<longrightarrow>
            Flush ob h timeout =
              Some (Some DeadlineExceeded,
                    if k = 0 then h else h\<lparr>sendingLocker := False\<rparr>, polls ob 0 k))
       \<and> (clock ob (Suc k) < clock ob 0 + timeout \<and> \<not> granted ob k \<longrightarrow>
            Flush ob h timeout = None)"
proof -
  have "(case k of 0 \<Rightarrow> h | Suc m \<Rightarrow> h\<lparr>sendingLocker := False\<rparr>)
          = (if k = 0 then h else h\<lparr>sendingLocker := False\<rparr>)"
    by (cases k) simp_all
  then have r: "Flush ob h timeout =
        Flush_loop ob (clock ob 0 + timeout) k
          (if k = 0 then h else h\<lparr>sendingLocker := False\<rparr>) (polls ob 0 k)"
    unfolding Flush_def using Flush_loop_rounds [of k ob 0 "clock ob 0 + timeout" h "[]"] assms
    by simp
  show ?thesis
    unfolding r by (auto simp: Flush_loop_empty Flush_loop_deadline Flush_loop_blocked)
qed

theorem Flush_result_witness:
  "clock draining 1 < clock draining 0 + 10 * millisecond \<and> queued draining 0 = 2
   \<and> clock draining 2 < clock draining 0 + 10 * millisecond \<and> queued draining 1 = 1
   \<and> clock draining 3 < clock draining 0 + 10 * millisecond \<and> queued draining 2 = 0
   \<and> Flush draining test_hook (10 * millisecond) =
       Some (None, test_hook,
             [Lock, Unlock, Len 2, Sleep 1000000, Lock, Unlock, Len 1, Sleep 1000000,
              Lock, Unlock, Len 0])
   \<and> clock draining 0 + 3 * millisecond \<le> clock draining 2
   \<and> Flush draining test_hook (3 * millisecond) =
       Some (Some DeadlineExceeded, test_hook, [Lock, Unlock, Len 2, Sleep 1000000])
   \<and> clock held 1 < clock held 0 + 4 * millisecond \<and> \<not> granted held 0
   \<and> Flush held test_hook (4 * millisecond) = None"
proof -
  have a: "\<forall>j<2. clock draining (Suc j) < clock draining 0 + 10 * millisecond
             \<and> granted draining j \<and> queued draining j \<noteq> 0"
    by (simp add: draining_def millisecond_def less_Suc_eq numeral_2_eq_2)
  have b: "\<forall>j<1. clock draining (Suc j) < clock draining 0 + 3 * millisecond
             \<and> granted draining j \<and> queued draining j \<noteq> 0"
    by (simp add: draining_def millisecond_def)
  have e: "\<forall>j<0. clock held (Suc j) < clock held 0 + 4 * millisecond
             \<and> granted held j \<and> queued held j \<noteq> 0"
    by simp
  have c: "clock draining 1 < clock draining 0 + 10 * millisecond" "queued draining 0 = 2"
    "clock draining 2 < clock draining 0 + 10 * millisecond" "queued draining 1 = 1"
    "clock draining 3 < clock draining 0 + 10 * millisecond" "queued draining 2 = 0"
    "clock draining 0 + 3 * millisecond \<le> clock draining 2" "granted draining 2"
    by (simp_all add: draining_def millisecond_def)
  have d: "clock held 1 < clock held 0 + 4 * millisecond" "\<not> granted held 0"
    by (simp_all add: held_def millisecond_def)
  have h: "test_hook\<lparr>sendingLocker := False\<rparr> = test_hook" by (simp add: test_hook_def)
  have "Flush draining test_hook (10 * millisecond) =
       Some (None, test_hook,
             [Lock, Unlock, Len 2, Sleep 1000000, Lock, Unlock, Len 1, Sleep 1000000,
              Lock, Unlock, Len 0])"
    using Flush_result [of 2 draining "10 * millisecond" test_hook, OF a] c
    by (simp add: h numeral_2_eq_2 millisecond_def draining_def)
  moreover have "Flush draining test_hook (3 * millisecond) =
       Some (Some DeadlineExceeded, test_hook, [Lock, Unlock, Len 2, Sleep 1000000])"
    using Flush_result [of 1 draining "3 * millisecond" test_hook, OF b] c
    by (simp add: h millisecond_def draining_def)
  moreover have "Flush held test_hook (4 * millisecond) = None"
    using Flush_result [of 0 held "4 * millisecond" test_hook, OF e] d
    by simp
  ultimately show ?thesis using c d by simp
qed

text \<open>
  Claim C10. With a timeout that is zero or negative and a clock that does not run
  backwards, \<open>Flush\<close> returns the deadline error with no event at all, neither lock nor
  unlock nor a look at the queue, and the hook is as before.
\<close>

theorem Flush_nonpositive_timeout:
  assumes "timeout \<le> 0" and "clock ob 0 \<le> clock ob 1"
  shows "Flush ob h timeout = Some (Some DeadlineExceeded, h, [])"
  unfolding Flush_def using assms by (intro Flush_loop_deadline) simp

theorem Flush_nonpositive_timeout_witness:
  "(0::int) \<le> 0 \<and> (-5::int) \<le> 0 \<and> clock draining 0 \<le> clock draining 1
   \<and> Flush draining test_hook 0 = Some (Some DeadlineExceeded, test_hook, [])
   \<and> Flush draining test_hook (-5) = Some (Some DeadlineExceeded, test_hook, [])"
proof -
  have c: "clock draining 0 \<le> clock draining 1"
    by (simp add: draining_def millisecond_def)
  from Flush_nonpositive_timeout [of 0 draining test_hook, OF _ c]
    Flush_nonpositive_timeout [of "-5" draining test_hook, OF _ c] c
  show ?thesis by simp
qed

section \<open>The order of the writes\<close>

lemma reconnect_loop_written:
  assumes "reconnect_loop h d w = Some r"
  shows "written (trace (snd r)) = written (trace w)"
  using assms
proof (induction rule: reconnect_loop_induct)
  case (step rl h delay w r)
  show ?case
  proof (cases "dial_ok w (dials w)")
    case True
    with step(2) show ?thesis by (auto simp: Let_def)
  next
    case False
    with step(2) have "rl h (next_delay delay)
        (sleep delay (emit (Errorf ''unable to connect'')
           (emit (Dial (protocol h) (address h) False) (w\<lparr>dials := dials w + 1\<rparr>)))) = Some r"
      by (simp add: Let_def)
    from step(1) [OF this] show ?thesis by simp
  qed
qed

lemma performSend_loop_written:
  assumes "performSend_loop h data d w = Some r"
  shows "written (trace (snd (snd r))) =
           written (trace w) @ (case fst r of Returned u \<Rightarrow> [data] | Panicked \<Rightarrow> [])"
  using assms
proof (induction rule: performSend_loop_induct)
  case (step pl h data delay w r)
  show ?case
  proof (cases "conn h")
    case None
    with step(2) show ?thesis by auto
  next
    case (Some c)
    show ?thesis
    proof (cases "write_ok w (writes w)")
      case True
      with step(2) Some show ?thesis by (auto simp: Let_def)
    next
      case False
      with step(2) Some obtain h1 w1 where
        rc: "reconnect h (sleep delay (emit (Errorf ''unable to write'')
               (emit (Write c data False) (w\<lparr>writes := writes w + 1\<rparr>)))) = Some (h1, w1)"
        and pl: "pl h1 data (next_delay delay) w1 = Some r"
        by (auto simp: Let_def bind_eq_Some_conv)
      from reconnect_loop_written [OF rc [unfolded reconnect_def]]
      have "written (trace w1) = written (trace w)" by simp
      with step(1) [OF pl] show ?thesis by simp
    qed
  qed
qed

lemma performSend_written:
  assumes "performSend h data w = Some (r, h', w')"
  shows "written (trace w') =
           written (trace w) @ (case r of Returned u \<Rightarrow> [data] | Panicked \<Rightarrow> [])"
proof (cases "0 < Timeout h \<and> conn h = None")
  case True
  with assms show ?thesis by (auto simp: performSend_def)
next
  case False
  with assms obtain w1 where "performSend_loop h data (10 * millisecond) w1 = Some (r, h', w')"
    and "written (trace w1) = written (trace w)"
    by (auto simp: performSend_def split: if_splits option.splits)
  with performSend_loop_written [of h data _ w1 "(r, h', w')"] show ?thesis by simp
qed

lemma sendMessage_frame:
  assumes "sendMessage F h entry w = Some (r, h', entry', w')"
  shows "\<exists>c l. h' = h\<lparr>conn := c, sendingLocker := l\<rparr>"
proof -
  have self: "\<exists>c l. h = h\<lparr>conn := c, sendingLocker := l\<rparr>"
    by (rule exI [of _ "conn h"], rule exI [of _ "sendingLocker h"]) simp
  show ?thesis
  proof (cases "mergeFields (alwaysSentFields h) (Data entry)")
    case None
    with assms self show ?thesis by (auto simp: sendMessage_unfold)
  next
    case (Some d)
    show ?thesis
    proof (cases "F (formatter_of h) (entry\<lparr>Data := d\<rparr>) (hookOnlyPrefix h)")
      case (Inl err)
      with assms Some self show ?thesis by (auto simp: sendMessage_unfold)
    next
      case (Inr b)
      with assms Some obtain r0 h0 w0 where
        ps: "performSend (h\<lparr>sendingLocker := True\<rparr>) b (emit Lock w) = Some (r0, h0, w0)"
        and e: "h' = h0\<lparr>sendingLocker := False\<rparr>"
        by (auto simp: sendMessage_unfold split: option.splits)
      from performSend_frame [OF ps] obtain c where
        "h0 = h\<lparr>sendingLocker := True, conn := c\<rparr>" by auto
      with e have "h' = h\<lparr>conn := c, sendingLocker := False\<rparr>" by simp
      then show ?thesis by blast
    qed
  qed
qed

lemma sendMessage_written:
  assumes "sendMessage F h entry w = Some (r, h', entry', w')"
  shows "written (trace w') = written (trace w) @
           (case r of
              Panicked \<Rightarrow> []
            | Returned err \<Rightarrow>
                (case F (formatter_of h) (merged h entry) (hookOnlyPrefix h) of
                   Inl e \<Rightarrow> []
                 | Inr b \<Rightarrow> [b]))"
proof (cases "mergeFields (alwaysSentFields h) (Data entry)")
  case None
  with assms show ?thesis by (auto simp: sendMessage_unfold)
next
  case (Some d)
  then have m: "merged h entry = entry\<lparr>Data := d\<rparr>" by (simp add: merged_def)
  show ?thesis
  proof (cases "F (formatter_of h) (entry\<lparr>Data := d\<rparr>) (hookOnlyPrefix h)")
    case (Inl err)
    with assms Some have "r = Returned (Some err)" "w' = w"
      by (simp_all add: sendMessage_unfold)
    with Inl show ?thesis by (simp add: m)
  next
    case (Inr b)
    with assms Some obtain r0 h0 w0 where
      ps: "performSend (h\<lparr>sendingLocker := True\<rparr>) b (emit Lock w) = Some (r0, h0, w0)"
      and r: "r = (case r0 of Returned u \<Rightarrow> Returned None | Panicked \<Rightarrow> Panicked)"
      and w': "w' = emit Unlock w0"
      by (auto simp: sendMessage_unfold split: option.splits)
    from performSend_written [OF ps] r w' Inr show ?thesis
      by (cases r0) (simp_all add: m)
  qed
qed

lemma sendMessage_Returned_merged:
  assumes "sendMessage F h entry w = Some (Returned err, h', entry', w')"
  shows "err = (case F (formatter_of h) (merged h entry) (hookOnlyPrefix h) of
                  Inl e \<Rightarrow> Some e | Inr b \<Rightarrow> None)"
proof (cases "mergeFields (alwaysSentFields h) (Data entry)")
  case None
  with assms show ?thesis by (auto simp: sendMessage_unfold)
next
  case (Some d)
  then have m: "merged h entry = entry\<lparr>Data := d\<rparr>" by (simp add: merged_def)
  from assms Some show ?thesis
    by (auto simp: sendMessage_unfold m split: sum.splits option.splits outcome.splits)
qed

lemma same_config_refl [simp]: "same_config h h"
  by (simp add: same_config_def)

lemma same_config_upd [simp]:
  "same_config (h\<lparr>fireChannel := ch\<rparr>) h0 = same_config h h0"
  "same_config (h\<lparr>conn := c\<rparr>) h0 = same_config h h0"
  "same_config (h\<lparr>sendingLocker := l\<rparr>) h0 = same_config h h0"
  by (simp_all add: same_config_def)

lemma same_config_merged: "same_config h h0 \<Longrightarrow> merged h e = merged h0 e"
  by (simp add: same_config_def merged_def)

lemma same_config_formatter: "same_config h h0 \<Longrightarrow> formatter_of h = formatter_of h0"
  by (simp add: same_config_def formatter_of_def)

lemma same_config_filter: "same_config h h0 \<Longrightarrow> filterHookOnly h e = filterHookOnly h0 e"
  by (simp add: same_config_def filterHookOnly_def split: option.splits)

lemma same_config_prefix: "same_config h h0 \<Longrightarrow> hookOnlyPrefix h = hookOnlyPrefix h0"
  by (simp add: same_config_def)

lemma store_after_snoc:
  "store_after h hp (ps @ [p]) =
     (store_after h hp ps)(p := filterHookOnly h (merged h (store_after h hp ps p)))"
  by (induction ps arbitrary: hp) simp_all

lemma wire_snoc:
  "wire F h hp (ps @ [p]) =
     wire F h hp ps @
     (case F (formatter_of h) (merged h (store_after h hp ps p)) (hookOnlyPrefix h) of
        Inl err \<Rightarrow> []
      | Inr b \<Rightarrow> [b])"
  by (induction ps arbitrary: hp) simp_all

lemma chan_send_nb_pending:
  assumes "chan_send_nb c p = Some c'" and "receiver c = Waiting \<longrightarrow> buf c = []"
  shows "pending c' = pending c @ [p] \<and> (receiver c' = Waiting \<longrightarrow> buf c' = [])"
  using assms by (auto simp: chan_send_nb_def pending_def split: if_splits receiver.splits)

lemma chan_park_pending [simp]:
  "pending (chan_park c p) = pending c" "receiver (chan_park c p) = receiver c"
  "buf (chan_park c p) = buf c"
  by (simp_all add: chan_park_def pending_def)

lemma chan_recv_pending:
  assumes "chan_recv c = (c', r, wk)" and "receiver c = Waiting \<longrightarrow> buf c = []"
  shows "(case r of None \<Rightarrow> [] | Some x \<Rightarrow> [x]) @ pending c' =
           pending c @ (case wk of None \<Rightarrow> [] | Some y \<Rightarrow> [y])
         \<and> (receiver c' = Waiting \<longrightarrow> buf c' = [])"
  using assms
  by (auto simp: chan_recv_def pending_def split: receiver.splits list.splits)

lemma fire_step_sel [simp]:
  "sender (fire_step p s) = sender s" "heap (fire_step p s) = heap s"
  "net (fire_step p s) = net s" "received (fire_step p s) = received s"
  "sent (fire_step p s) = sent s"
  "hook (fire_step p s) = fst (snd (Fire (hook s) p))"
  "accepted (fire_step p s) =
     accepted s @ (if chan_send_nb (fireChannel (hook s)) p = None then [] else [p])"
  by (simp_all add: fire_step_def split: prod.splits)

lemma Fire_hook:
  "fst (snd (Fire h p)) =
     (case chan_send_nb (fireChannel h) p of
        Some ch \<Rightarrow> h\<lparr>fireChannel := ch\<rparr>
      | None \<Rightarrow> if WaitUntilBufferFrees h then h\<lparr>fireChannel := chan_park (fireChannel h) p\<rparr>
                else h)"
  by (simp add: Fire_def split: option.splits)

lemma fifo_fire_step:
  assumes "fifo F s0 s"
  shows "fifo F s0 (fire_step p s)"
proof (cases "chan_send_nb (fireChannel (hook s)) p")
  case None
  with assms show ?thesis
    by (simp add: fifo_def Fire_hook cong: goroutine.case_cong)
next
  case (Some c')
  from assms have "receiver (fireChannel (hook s)) = Waiting \<longrightarrow> buf (fireChannel (hook s)) = []"
    by (simp add: fifo_def)
  from chan_send_nb_pending [OF Some this] assms Some show ?thesis
    by (simp add: fifo_def Fire_hook cong: goroutine.case_cong)
qed


lemma chan_recv_None:
  assumes "chan_recv c = (c', None, wk)"
  shows "wk = None"
  using assms by (auto simp: chan_recv_def split: receiver.splits list.splits)

lemma written_emit_Errorf [simp]: "written (trace (emit (Errorf m) w)) = written (trace w)"
  by simp

lemma fifo_sender_step:
  assumes "fifo F s0 s"
  shows "fifo F s0 (sender_step F s)"
proof (cases "sender s")
  case Dead
  with assms show ?thesis by (simp add: sender_step_def)
next
  case Stuck
  with assms show ?thesis by (simp add: sender_step_def)
next
  case Starting
  show ?thesis
  proof (cases "conn (hook s) = None")
    case False
    with Starting have "sender_step F s = s\<lparr>sender := Receiving\<rparr>"
      by (auto simp: sender_step_def)
    with Starting assms show ?thesis
      by (simp add: fifo_def)
  next
    case True
    show ?thesis
    proof (cases "reconnect (hook s) (net s)")
      case None
      with True Starting have "sender_step F s = s\<lparr>sender := Stuck\<rparr>"
        by (simp add: sender_step_def)
      with Starting assms show ?thesis
        by (simp add: fifo_def)
    next
      case (Some r)
      obtain h' w' where r: "r = (h', w')" by (cases r)
      from reconnect_frame [OF Some [unfolded r]] obtain c where h': "h' = (hook s)\<lparr>conn := c\<rparr>" ..
      from reconnect_loop_written [OF Some [unfolded reconnect_def]]
      have w': "written (trace w') = written (trace (net s))" by (simp add: r)
      from True Starting Some have "sender_step F s = s\<lparr>hook := h', net := w', sender := Receiving\<rparr>"
        by (simp add: sender_step_def r)
      with assms Starting h' w' show ?thesis
        by (simp add: fifo_def)
    qed
  qed
next
  case Receiving
  let ?c = "fireChannel (hook s)"
  obtain ch r wk where cr: "chan_recv ?c = (ch, r, wk)" by (cases "chan_recv ?c")
  from assms have wf: "receiver ?c = Waiting \<longrightarrow> buf ?c = []"
    and cfg: "same_config (hook s) (hook s0)"
    and acc: "accepted s = received s @ pending ?c"
    and rs: "received s = sent s"
    and hp: "heap s = store_after (hook s0) (heap s0) (sent s)"
    and wr: "written (trace (net s)) =
               written (trace (net s0)) @ wire F (hook s0) (heap s0) (sent s)"
    using Receiving by (simp_all add: fifo_def)
  note pend = chan_recv_pending [OF cr wf]
  show ?thesis
  proof (cases r)
    case None
    with cr have "wk = None" by (simp add: chan_recv_None)
    with pend None have p: "pending ch = pending ?c" "receiver ch = Waiting \<longrightarrow> buf ch = []"
      by simp_all
    from Receiving cr None have "sender_step F s = s\<lparr>hook := (hook s)\<lparr>fireChannel := ch\<rparr>\<rparr>"
      by (simp add: sender_step_def)
    with assms p Receiving show ?thesis by (simp add: fifo_def)
  next
    case (Some p)
    define h1 where "h1 = (hook s)\<lparr>fireChannel := ch\<rparr>"
    define wl where "wl = (case wk of None \<Rightarrow> [] | Some y \<Rightarrow> [y])"
    define s1 where "s1 = s\<lparr>received := received s @ [p], accepted := accepted s @ wl,
        returns := returns s @ (case wk of None \<Rightarrow> [] | Some y \<Rightarrow> [(y, Fire_woken)])\<rparr>"
    from pend Some have pc: "p # pending ch = pending ?c @ wl"
      and wf': "receiver ch = Waiting \<longrightarrow> buf ch = []"
      by (simp_all add: wl_def)
    have acc1: "accepted s @ wl = (received s @ [p]) @ pending ch"
      using acc pc by simp
    have cfg1: "same_config h1 (hook s0)" using cfg by (simp add: h1_def)
    have ch1: "fireChannel h1 = ch" by (simp add: h1_def)
    show ?thesis
    proof (cases "sendMessage F h1 (heap s p) (net s)")
      case None
      with Receiving cr Some have
        "sender_step F s = s1\<lparr>hook := h1\<lparr>sendingLocker := True\<rparr>,
            heap := (heap s)(p := merged h1 (heap s p)), sender := Stuck\<rparr>"
        by (simp add: sender_step_def s1_def h1_def wl_def Let_def)
      with acc1 cfg1 ch1 wf' rs wr show ?thesis
        by (simp add: fifo_def s1_def)
    next
      case (Some res)
      obtain out h' e' w' where res: "res = (out, h', e', w')" by (cases res)
      note sm = Some [unfolded res]
      from sendMessage_frame [OF sm] obtain c l where h': "h' = h1\<lparr>conn := c, sendingLocker := l\<rparr>"
        by blast
      have cfg': "same_config h' (hook s0)" "fireChannel h' = ch"
        using cfg1 ch1 by (simp_all add: h')
      note w' = sendMessage_written [OF sm]
      show ?thesis
      proof (cases out)
        case Panicked
        with Receiving cr \<open>r = Some p\<close> sm have
          "sender_step F s = s1\<lparr>hook := h', heap := (heap s)(p := e'),
              net := emit (Errorf ''the fireChannel handler is closed'') w', sender := Dead\<rparr>"
          by (simp add: sender_step_def s1_def h1_def wl_def Let_def)
        with acc1 cfg' wf' rs wr w' Panicked show ?thesis
          by (simp add: fifo_def s1_def)
      next
        case (Returned err)
        with Receiving cr \<open>r = Some p\<close> sm have st:
          "sender_step F s = s1\<lparr>hook := h', heap := (heap s)(p := e'),
              net := (case err of None \<Rightarrow> w'
                      | Some e \<Rightarrow> emit (Errorf ''unable to send the message'') w'),
              sent := sent s @ [p]\<rparr>"
          by (simp add: sender_step_def s1_def h1_def wl_def Let_def)
        from sendMessage_entry [OF sm]
        have e': "e' = filterHookOnly (hook s0) (merged (hook s0) (heap s p))"
          using cfg1 by (simp add: same_config_filter same_config_merged)
        have hp': "(heap s)(p := e') = store_after (hook s0) (heap s0) (sent s @ [p])"
          unfolding store_after_snoc e' hp ..
        have "written (trace w') = written (trace (net s0)) @
                wire F (hook s0) (heap s0) (sent s @ [p])"
          using w' Returned wr cfg1
          by (simp add: wire_snoc hp same_config_formatter same_config_merged
                same_config_prefix)
        then have wr': "written (trace (case err of None \<Rightarrow> w'
                      | Some e \<Rightarrow> emit (Errorf ''unable to send the message'') w')) =
              written (trace (net s0)) @ wire F (hook s0) (heap s0) (sent s @ [p])"
          by (cases err) simp_all
        from acc1 cfg' wf' rs hp' wr' Receiving show ?thesis
          unfolding st by (simp add: fifo_def s1_def)
      qed
    qed
  qed
qed

lemma fifo_step: "fifo F s0 s \<Longrightarrow> fifo F s0 (step F a s)"
  by (cases a) (simp_all add: fifo_fire_step fifo_sender_step)

lemma fifo_run: "fifo F s0 s \<Longrightarrow> fifo F s0 (run F acts s)"
  unfolding run_def by (induction acts arbitrary: s) (simp_all add: fifo_step)

lemma started_fifo:
  assumes "pending (fireChannel h) = []"
  shows "fifo F (started h hp w) (run F acts (started h hp w))"
proof -
  from assms have "buf (fireChannel h) = []" by (simp add: pending_def)
  with assms have "fifo F (started h hp w) (started h hp w)"
    by (simp add: fifo_def started_def)
  then show ?thesis by (rule fifo_run)
qed

lemma NewHook_fifo:
  "fifo F (started (NewHook p a n) hp w) (run F acts (started (NewHook p a n) hp w))"
  by (rule started_fifo)
     (simp add: NewHook_def NewHookWithFields_def NewHookWithFieldsAndPrefix_def
        NewHookWithFieldsAndConnAndPrefix_def pending_def)

text \<open>
  Claim C1. From a start with an empty channel and an empty history, after any sequence
  of calls of \<open>Fire\<close> and steps of the sending goroutine: the entries accepted by the
  channel, in the order of acceptance, are the entries the goroutine received, in that
  order, followed by the ones still queued; every entry received has been sent, but for
  the last one when the goroutine has ended by a panic or is inside a call that does not
  return; and the writes that succeeded carry, in this order and once each, the bytes the
  formatter made of the entries sent, none for an entry the formatter rejected.
\<close>

theorem writes_in_enqueue_order:
  assumes "accepted s0 = []" and "received s0 = []" and "sent s0 = []"
    and "pending (fireChannel (hook s0)) = []"
    and "sender s0 = Starting \<or> sender s0 = Receiving"
  shows "(let s = run F acts s0 in
            accepted s = received s @ pending (fireChannel (hook s))
          \<and> (received s = sent s
              \<or> (\<exists>p. received s = sent s @ [p]) \<and> (sender s = Dead \<or> sender s = Stuck))
          \<and> written (trace (net s)) =
              written (trace (net s0)) @ wire F (hook s0) (heap s0) (sent s))"
proof -
  from assms(4) have "buf (fireChannel (hook s0)) = []"
    by (simp add: pending_def)
  with assms have "fifo F s0 s0"
    by (auto simp: fifo_def)
  then have "fifo F s0 (run F acts s0)" by (rule fifo_run)
  then show ?thesis
    by (auto simp: fifo_def Let_def split: goroutine.splits)
qed

theorem writes_in_enqueue_order_witness:
  "accepted test_system = [] \<and> received test_system = [] \<and> sent test_system = []
   \<and> pending (fireChannel (hook test_system)) = [] \<and> sender test_system = Starting
   \<and> (let s = run test_format test_schedule test_system in
         accepted s = [0, 1] \<and> received s = [0, 1] \<and> sent s = [0, 1]
       \<and> written (trace (net s)) =
           [''id=a;test-name=fire-test;ignore=haaa;override=no;'',
            ''id=b;test-name=fire-test;ignore=haaa;override=no;''])"
proof -
  have h: "accepted test_system = []" "received test_system = []" "sent test_system = []"
    "pending (fireChannel (hook test_system)) = []" "sender test_system = Starting"
    by (simp_all add: test_system_def test_hook_def pending_def)
  have a: "accepted (run test_format test_schedule test_system) = [0, 1]" by code_simp
  have r: "received (run test_format test_schedule test_system) = [0, 1]" by code_simp
  have s: "sent (run test_format test_schedule test_system) = [0, 1]" by code_simp
  have t: "written (trace (net test_system)) = []"
    by (simp add: test_system_def flaky_world_def)
  have w: "wire test_format (hook test_system) (heap test_system) [0, 1] =
           [''id=a;test-name=fire-test;ignore=haaa;override=no;'',
            ''id=b;test-name=fire-test;ignore=haaa;override=no;'']"
    by code_simp
  from writes_in_enqueue_order [of test_system test_format test_schedule, OF h(1-4)] h(5)
  have "written (trace (net (run test_format test_schedule test_system))) =
          written (trace (net test_system)) @
          wire test_format (hook test_system) (heap test_system)
            (sent (run test_format test_schedule test_system))"
    by (simp add: Let_def)
  with h a r s t w show ?thesis by (simp add: Let_def)
qed

section \<open>Fire\<close>

lemma Fire_cases:
  "Fire h p =
     (if receiver (fireChannel h) = Waiting
      then (FireReturned None, h\<lparr>fireChannel := (fireChannel h)\<lparr>receiver := Delivered p\<rparr>\<rparr>, [])
      else if length (buf (fireChannel h)) < cap (fireChannel h)
      then (FireReturned None,
            h\<lparr>fireChannel := (fireChannel h)\<lparr>buf := buf (fireChannel h) @ [p]\<rparr>\<rparr>, [])
      else if WaitUntilBufferFrees h
      then (FireParked,
            h\<lparr>fireChannel := (fireChannel h)\<lparr>sendq := sendq (fireChannel h) @ [p]\<rparr>\<rparr>, [])
      else (FireReturned None, h, [Errorf ''dropped a message'']))"
  by (simp add: Fire_def chan_send_nb_def chan_park_def)

lemma sender_step_receive:
  assumes "sender s = Receiving" and "chan_recv (fireChannel (hook s)) = (ch, Some x, wk)"
  shows "fireChannel (hook (sender_step F s)) = ch
       \<and> received (sender_step F s) = received s @ [x]
       \<and> accepted (sender_step F s) = accepted s @ (case wk of None \<Rightarrow> [] | Some y \<Rightarrow> [y])
       \<and> returns (sender_step F s) =
           returns s @ (case wk of None \<Rightarrow> [] | Some y \<Rightarrow> [(y, None)])"
proof (cases "sendMessage F ((hook s)\<lparr>fireChannel := ch\<rparr>) (heap s x) (net s)")
  case None
  with assms show ?thesis
    by (simp add: sender_step_def Let_def Fire_woken_def split: option.splits)
next
  case (Some res)
  obtain out h' e' w' where res: "res = (out, h', e', w')" by (cases res)
  from sendMessage_frame [OF Some [unfolded res]] have "fireChannel h' = ch" by auto
  with assms Some res show ?thesis
    by (cases out) (simp_all add: sender_step_def Let_def Fire_woken_def split: option.splits)
qed

lemma returns_fire_step:
  "\<exists>ys. returns (fire_step p s) = returns s @ ys \<and> (\<forall>y\<in>set ys. snd y = None)"
  by (simp add: fire_step_def Fire_cases)

lemma returns_sender_step:
  "\<exists>ys. returns (sender_step F s) = returns s @ ys \<and> (\<forall>y\<in>set ys. snd y = None)"
proof (cases "sender s")
  case Starting
  then have "returns (sender_step F s) = returns s"
    by (auto simp: sender_step_def split: option.splits)
  then show ?thesis by simp
next
  case Receiving
  obtain ch r wk where cr: "chan_recv (fireChannel (hook s)) = (ch, r, wk)"
    by (cases "chan_recv (fireChannel (hook s))")
  show ?thesis
  proof (cases r)
    case None
    with Receiving cr have "returns (sender_step F s) = returns s"
      by (simp add: sender_step_def)
    then show ?thesis by simp
  next
    case (Some x)
    from sender_step_receive [OF Receiving cr [unfolded Some], of F] show ?thesis
      by (cases wk) simp_all
  qed
next
  case Dead
  then show ?thesis by (simp add: sender_step_def)
next
  case Stuck
  then show ?thesis by (simp add: sender_step_def)
qed

lemma returns_run:
  assumes "\<forall>y\<in>set (returns s). snd y = None"
  shows "\<forall>y\<in>set (returns (run F acts s)). snd y = None"
  using assms unfolding run_def
proof (induction acts arbitrary: s)
  case Nil
  then show ?case by simp
next
  case (Cons a acts)
  have "\<forall>y\<in>set (returns (step F a s)). snd y = None"
  proof (cases a)
    case (CallFire p)
    with returns_fire_step [of p s] Cons.prems show ?thesis by fastforce
  next
    case SenderStep
    with returns_sender_step [of F s] Cons.prems show ?thesis by fastforce
  qed
  from Cons.IH [OF this] show ?case by simp
qed

text \<open>
  Claim C2. \<open>Fire\<close> never returns an error. When the receiver is parked or the buffer
  has room, the entry is handed over or queued at once and \<open>Fire\<close> returns nil without
  logging. When the buffer is full and \<open>WaitUntilBufferFrees\<close> is set, the call parks
  with its entry, nothing is returned or accepted yet; the next receive takes the head
  of the buffer, puts the entry at its tail and lets the call return nil. When the buffer
  is full and the flag is not set, the hook stays as it is, \<open>dropped a message\<close> is
  logged and \<open>Fire\<close> returns nil. In every run, every call of \<open>Fire\<close> that returned has
  returned nil.
\<close>

theorem Fire_never_fails:
  "fst (Fire h p) \<noteq> FireReturned (Some e)
   \<and> (receiver (fireChannel h) = Waiting \<longrightarrow>
        Fire h p =
          (FireReturned None,
           h\<lparr>fireChannel := (fireChannel h)\<lparr>receiver := Delivered p\<rparr>\<rparr>, []))
   \<and> (receiver (fireChannel h) \<noteq> Waiting
        \<and> length (buf (fireChannel h)) < cap (fireChannel h) \<longrightarrow>
        Fire h p =
          (FireReturned None,
           h\<lparr>fireChannel := (fireChannel h)\<lparr>buf := buf (fireChannel h) @ [p]\<rparr>\<rparr>, []))
   \<and> (receiver (fireChannel h) \<noteq> Waiting
        \<and> cap (fireChannel h) \<le> length (buf (fireChannel h))
        \<and> WaitUntilBufferFrees h \<longrightarrow>
        Fire h p =
          (FireParked,
           h\<lparr>fireChannel := (fireChannel h)\<lparr>sendq := sendq (fireChannel h) @ [p]\<rparr>\<rparr>, []))
   \<and> (receiver (fireChannel h) \<noteq> Waiting
        \<and> cap (fireChannel h) \<le> length (buf (fireChannel h))
        \<and> \<not> WaitUntilBufferFrees h \<longrightarrow>
        Fire h p = (FireReturned None, h, [Errorf ''dropped a message'']))
   \<and> (sender s = Receiving \<and> WaitUntilBufferFrees (hook s)
        \<and> fireChannel (hook s) = \<lparr>buf = x # xs, cap = Suc (length xs), sendq = [],
                                   receiver = NotWaiting\<rparr> \<longrightarrow>
        returns (fire_step p s) = returns s
        \<and> accepted (fire_step p s) = accepted s
        \<and> fireChannel (hook (fire_step p s)) =
            \<lparr>buf = x # xs, cap = Suc (length xs), sendq = [p], receiver = NotWaiting\<rparr>
        \<and> returns (sender_step F (fire_step p s)) = returns s @ [(p, None)]
        \<and> accepted (sender_step F (fire_step p s)) = accepted s @ [p]
        \<and> fireChannel (hook (sender_step F (fire_step p s))) =
            \<lparr>buf = xs @ [p], cap = Suc (length xs), sendq = [], receiver = NotWaiting\<rparr>)
   \<and> ((\<forall>y\<in>set (returns s). snd y = None) \<longrightarrow>
        (\<forall>y\<in>set (returns (run F acts s)). snd y = None))"
proof (intro conjI impI)
  show "fst (Fire h p) \<noteq> FireReturned (Some e)"
    by (simp add: Fire_cases)
  show "\<forall>y\<in>set (returns (run F acts s)). snd y = None"
    if "\<forall>y\<in>set (returns s). snd y = None"
    using that by (rule returns_run)
next
  assume a: "sender s = Receiving \<and> WaitUntilBufferFrees (hook s)
        \<and> fireChannel (hook s) = \<lparr>buf = x # xs, cap = Suc (length xs), sendq = [],
                                   receiver = NotWaiting\<rparr>"
  let ?s = "fire_step p s"
  have f: "Fire (hook s) p = (FireParked,
      (hook s)\<lparr>fireChannel := \<lparr>buf = x # xs, cap = Suc (length xs), sendq = [p],
                                receiver = NotWaiting\<rparr>\<rparr>, [])"
    using a by (simp add: Fire_cases)
  show 1: "returns ?s = returns s" using f by (simp add: fire_step_def)
  show 2: "accepted ?s = accepted s"
    using a by (simp add: fire_step_def f chan_send_nb_def)
  show 3: "fireChannel (hook ?s) =
            \<lparr>buf = x # xs, cap = Suc (length xs), sendq = [p], receiver = NotWaiting\<rparr>"
    using f by (simp add: fire_step_def)
  have r: "sender ?s = Receiving" using a by simp
  have cr: "chan_recv (fireChannel (hook ?s)) =
      (\<lparr>buf = xs @ [p], cap = Suc (length xs), sendq = [], receiver = NotWaiting\<rparr>,
       Some x, Some p)"
    unfolding 3 by (simp add: chan_recv_def)
  from sender_step_receive [OF r cr, of F] 1 2
  show "returns (sender_step F ?s) = returns s @ [(p, None)]"
    "accepted (sender_step F ?s) = accepted s @ [p]"
    "fireChannel (hook (sender_step F ?s)) =
            \<lparr>buf = xs @ [p], cap = Suc (length xs), sendq = [], receiver = NotWaiting\<rparr>"
    by simp_all
qed (simp_all add: Fire_cases)


theorem Fire_never_fails_witness:
  "length (buf (fireChannel test_hook)) < cap (fireChannel test_hook)
   \<and> Fire test_hook 1 =
       (FireReturned None,
        test_hook\<lparr>fireChannel := \<lparr>buf = [1], cap = 10, sendq = [], receiver = NotWaiting\<rparr>\<rparr>,
        [])
   \<and> Fire (test_hook\<lparr>fireChannel := \<lparr>buf = [], cap = 0, sendq = [], receiver = Waiting\<rparr>\<rparr>) 1 =
       (FireReturned None,
        test_hook\<lparr>fireChannel := \<lparr>buf = [], cap = 0, sendq = [], receiver = Delivered 1\<rparr>\<rparr>,
        [])
   \<and> cap (fireChannel (hook full_system)) \<le> length (buf (fireChannel (hook full_system)))
   \<and> WaitUntilBufferFrees (hook full_system)
   \<and> fst (Fire (hook full_system) 1) = FireParked
   \<and> Fire ((hook full_system)\<lparr>WaitUntilBufferFrees := False\<rparr>) 1 =
       (FireReturned None, (hook full_system)\<lparr>WaitUntilBufferFrees := False\<rparr>,
        [Errorf ''dropped a message''])
   \<and> returns (fire_step 1 full_system) = []
   \<and> returns (sender_step test_format (fire_step 1 full_system)) = [(1, None)]
   \<and> accepted (sender_step test_format (fire_step 1 full_system)) = [0, 1]
   \<and> returns test_system = []
   \<and> map fst (returns (run test_format test_schedule test_system)) = [0, 1]
   \<and> list_all (\<lambda>y. snd y = None) (returns (run test_format test_schedule test_system))"
proof -
  note room = Fire_never_fails [where h = test_hook and p = 1 and e = DeadlineExceeded
      and s = full_system and x = 0 and xs = "[]" and F = test_format and acts = test_schedule]
  note handed = Fire_never_fails [where p = 1 and e = DeadlineExceeded
      and h = "test_hook\<lparr>fireChannel := \<lparr>buf = [], cap = 0, sendq = [], receiver = Waiting\<rparr>\<rparr>"
      and s = full_system and x = 0 and xs = "[]" and F = test_format and acts = test_schedule]
  note wait = Fire_never_fails [where h = "hook full_system" and p = 1
      and e = DeadlineExceeded
      and s = full_system and x = 0 and xs = "[]" and F = test_format and acts = test_schedule]
  note drop = Fire_never_fails [where p = 1 and e = DeadlineExceeded
      and h = "(hook full_system)\<lparr>WaitUntilBufferFrees := False\<rparr>"
      and s = full_system and x = 0 and xs = "[]" and F = test_format and acts = test_schedule]
  note all = Fire_never_fails [where h = test_hook and p = 1 and e = DeadlineExceeded
      and s = test_system and x = 0 and xs = "[]" and F = test_format and acts = test_schedule]
  have 1: "length (buf (fireChannel test_hook)) < cap (fireChannel test_hook)"
    "receiver (fireChannel test_hook) \<noteq> Waiting"
    by (simp_all add: test_hook_def)
  from room 1 have 2: "Fire test_hook 1 =
       (FireReturned None,
        test_hook\<lparr>fireChannel := \<lparr>buf = [1], cap = 10, sendq = [], receiver = NotWaiting\<rparr>\<rparr>,
        [])"
    by (simp add: test_hook_def)
  from handed have 3:
    "Fire (test_hook\<lparr>fireChannel := \<lparr>buf = [], cap = 0, sendq = [], receiver = Waiting\<rparr>\<rparr>) 1 =
       (FireReturned None,
        test_hook\<lparr>fireChannel := \<lparr>buf = [], cap = 0, sendq = [], receiver = Delivered 1\<rparr>\<rparr>,
        [])"
    by simp
  have 4: "cap (fireChannel (hook full_system)) \<le> length (buf (fireChannel (hook full_system)))"
    "WaitUntilBufferFrees (hook full_system)"
    "receiver (fireChannel (hook full_system)) \<noteq> Waiting"
    "sender full_system = Receiving"
    "fireChannel (hook full_system) =
       \<lparr>buf = [0], cap = Suc (length []), sendq = [], receiver = NotWaiting\<rparr>"
    "returns full_system = []" "accepted full_system = [0]"
    by (simp_all add: full_system_def test_system_def)
  from wait 4 have 5: "fst (Fire (hook full_system) 1) = FireParked"
    by simp
  from drop 4 have 6: "Fire ((hook full_system)\<lparr>WaitUntilBufferFrees := False\<rparr>) 1 =
       (FireReturned None, (hook full_system)\<lparr>WaitUntilBufferFrees := False\<rparr>,
        [Errorf ''dropped a message''])"
    by simp
  from wait 4 have 7: "returns (fire_step 1 full_system) = []"
    "returns (sender_step test_format (fire_step 1 full_system)) = [(1, None)]"
    "accepted (sender_step test_format (fire_step 1 full_system)) = [0, 1]"
    by simp_all
  have 8: "returns test_system = []" by (simp add: test_system_def)
  have 9: "map fst (returns (run test_format test_schedule test_system)) = [0, 1]"
    by code_simp
  from all 8 have 10:
    "list_all (\<lambda>y. snd y = None) (returns (run test_format test_schedule test_system))"
    by (simp add: list_all_iff)
  from 1(1) 2 3 4(1,2) 5 6 7 8 9 10 show ?thesis by (intro conjI)
qed

end
